theory Spec2Isabelle
  imports Main "HOL-Library.AList"
begin

section \<open>Values, errors and observable effects\<close>

type_synonym wid = nat
type_synonym dep_id = nat
type_synonym addr = nat

text \<open>
  JavaScript values as far as the observer code distinguishes them: primitives, the
  not-a-number value (the only value not strictly equal to itself) and references to
  objects or arrays, compared by identity.
\<close>

datatype val = Undefined | Null | Bool bool | Num int | NaN | Str string | Ref addr

text \<open>The strict equality \<^verbatim>\<open>===\<close> of the source language.\<close>

definition strict_eq :: "val \<Rightarrow> val \<Rightarrow> bool" where
  "strict_eq a b = (a \<noteq> NaN \<and> a = b)"

text \<open>
  Modelled from the spec: \<^verbatim>\<open>isObject\<close> of util is not in src; the spec speaks of
  "an object/array" and "a reference type".
\<close>

definition isObject :: "val \<Rightarrow> bool" where
  "isObject v = (case v of Ref a \<Rightarrow> True | _ \<Rightarrow> False)"

datatype exn = Thrown val | TypeError string | RangeError string

datatype 'a outcome = Ok 'a | Threw exn

text \<open>
  Calls that leave the observer core: \<^verbatim>\<open>warn\<close>, \<^verbatim>\<open>handleError\<close> and
  \<^verbatim>\<open>nextTick\<close>, the lifecycle hooks and the devtools hook are recorded in a log,
  together with the entry of every \<^verbatim>\<open>Dep.notify\<close> and every \<^verbatim>\<open>watcher.run()\<close> of
  a flush.
\<close>

datatype event =
    Warn string
  | HandleError exn string
  | NextTick
  | Notify dep_id
  | RunWatcher wid
  | CallHookUpdated nat
  | ActivateChild nat
  | DevtoolsFlush

section \<open>Objects and arrays\<close>

text \<open>
  A property key is a valid array index (\<^verbatim>\<open>isValidArrayIndex\<close>: a non-negative
  integer, as a number or as its decimal string) or any other name. The elements of an
  array are not among its named properties.
\<close>

datatype key = Index nat | Name string

text \<open>The functions a property descriptor can hold: the caller's own accessors, by a
  number, and the accessors that \<^verbatim>\<open>defineReactive\<close> installs, by their closure.\<close>

datatype gfn = UserGet nat | ReactiveGet nat

datatype sfn = UserSet nat | ReactiveSet nat

datatype slot = Data val | Accessor "gfn option" "sfn option"

record pdesc =
  configurable :: bool
  enumerable :: bool
  slot :: slot

text \<open>
  An \<^verbatim>\<open>Observer\<close>. It is held by the \<^verbatim>\<open>__ob__\<close> slot of the object it was made
  for, which is its \<^verbatim>\<open>value\<close>; its \<^verbatim>\<open>dep\<close> is a Subject of its own and identifies
  it.
\<close>

record observer =
  ob_dep :: dep_id
  vmCount :: nat

text \<open>
  An object: \<open>props\<close> are its own properties in the order of their creation,
  \<open>inherited\<close> the keys it finds on its prototype chain below \<^verbatim>\<open>Object.prototype\<close>
  (for an array, the names of \<^verbatim>\<open>Array.prototype\<close>),
  \<open>augmented\<close> says that the intercepted array methods have been installed on it,
  \<open>plain\<close> is \<^verbatim>\<open>isPlainObject\<close>. Data properties are writable. The own property
  \<^verbatim>\<open>__ob__\<close> is the field \<open>ob\<close> as long as it holds an \<^verbatim>\<open>Observer\<close> (it is then
  writable, configurable and not enumerable, as \<^verbatim>\<open>def\<close> defines it); holding anything
  else, it is a property among \<open>props\<close>. The elements of an array are dense: a hole
  reads as \<^verbatim>\<open>undefined\<close>.
\<close>

record obj =
  isArray :: bool
  elems :: "val list"
  props :: "(key \<times> pdesc) list"
  ob :: "observer option"
  augmented :: bool
  extensible :: bool
  plain :: bool
  isVue :: bool
  isVNode :: bool
  inherited :: "key set"

text \<open>
  The variables that the accessors installed by one call of \<^verbatim>\<open>defineReactive\<close>
  close over. \<open>childOb\<close> is the Subject of the observer that the variable holds, if it
  holds one.
\<close>

record cell =
  c_obj :: addr
  c_key :: key
  c_val :: val
  c_dep :: dep_id
  childOb :: "dep_id option"
  c_getter :: "gfn option"
  c_setter :: "sfn option"
  c_customSetter :: "nat option"
  c_shallow :: bool

text \<open>
  A call of one of the seven array methods that \<^verbatim>\<open>array.js\<close> intercepts, with its
  arguments: the start and the delete count of \<^verbatim>\<open>splice\<close> are absent when the call
  has fewer arguments, \<^verbatim>\<open>sort\<close> has its comparator. A call returns a value or a new
  array.
\<close>

datatype array_method =
    Push "val list" | Pop | Shift | Unshift "val list"
  | Splice "int option" "int option" "val list" | Sort nat | Reverse

datatype ret = Value val | NewArray "val list"

section \<open>The state of the observer core\<close>

record watcher =
  vm :: nat
  expression :: string
  deep :: bool
  user :: bool
  computed :: bool
  sync :: bool
  dirty :: bool
  active :: bool
  dep :: "dep_id option"
  deps :: "dep_id list"
  newDeps :: "dep_id list"
  depIds :: "dep_id set"
  newDepIds :: "dep_id set"
  has_before :: bool
  cached :: val

text \<open>
  A \<^verbatim>\<open>Dep\<close> is identified with its \<^verbatim>\<open>id\<close> and a \<^verbatim>\<open>Watcher\<close> with its
  \<^verbatim>\<open>id\<close> (both counters hand out every number once). \<open>cached\<close> is the watcher's
  field \<^verbatim>\<open>value\<close>. \<open>has\<close> is true at an id exactly when the source's \<^verbatim>\<open>has[id]\<close>
  is \<^verbatim>\<open>true\<close> (neither absent nor \<^verbatim>\<open>null\<close>); \<open>circular\<close> is 0 at an absent id.
  The target stack has its top at the end, as the array of the source.
\<close>

record world =
  subs :: "dep_id \<Rightarrow> wid list"
  dep_uid :: nat
  target :: "wid option"
  targetStack :: "wid list"
  watchers :: "wid \<Rightarrow> watcher"
  queue :: "wid list"
  has :: "wid \<Rightarrow> bool"
  circular :: "wid \<Rightarrow> nat"
  waiting :: bool
  flushing :: bool
  index :: nat
  activatedChildren :: "nat list"
  log :: "event list"
  heap :: "addr \<Rightarrow> obj"
  cells :: "nat \<Rightarrow> cell"
  cell_uid :: nat
  shouldObserve :: bool

section \<open>dep.js\<close>

definition addSub :: "dep_id \<Rightarrow> wid \<Rightarrow> world \<Rightarrow> world" where
  "addSub d sub s = s\<lparr>subs := (subs s)(d := subs s d @ [sub])\<rparr>"

text \<open>
  Modelled from the spec: \<^verbatim>\<open>remove\<close> of util is not in src; "unsubscribe is a no-op
  if absent", otherwise the subscriber is taken out of the list.
\<close>

definition removeSub :: "dep_id \<Rightarrow> wid \<Rightarrow> world \<Rightarrow> world" where
  "removeSub d sub s = s\<lparr>subs := (subs s)(d := remove1 sub (subs s d))\<rparr>"

definition pushTarget :: "wid option \<Rightarrow> world \<Rightarrow> world" where
  "pushTarget t s =
     (let s1 = (case target s of
                  Some cur \<Rightarrow> s\<lparr>targetStack := targetStack s @ [cur]\<rparr>
                | None \<Rightarrow> s)
      in s1\<lparr>target := t\<rparr>)"

definition popTarget :: "world \<Rightarrow> world" where
  "popTarget s =
     (if targetStack s = [] then s\<lparr>target := None\<rparr>
      else s\<lparr>target := Some (last (targetStack s)),
             targetStack := butlast (targetStack s)\<rparr>)"

section \<open>watcher.js: dependency collection\<close>

definition upd_watcher :: "wid \<Rightarrow> (watcher \<Rightarrow> watcher) \<Rightarrow> world \<Rightarrow> world" where
  "upd_watcher w f s = s\<lparr>watchers := (watchers s)(w := f (watchers s w))\<rparr>"

definition addDep :: "wid \<Rightarrow> dep_id \<Rightarrow> world \<Rightarrow> world" where
  "addDep w d s =
     (if d \<notin> newDepIds (watchers s w) then
        (let s1 = upd_watcher w (\<lambda>W. W\<lparr>newDepIds := insert d (newDepIds W),
                                          newDeps := newDeps W @ [d]\<rparr>) s
         in if d \<notin> depIds (watchers s1 w) then addSub d w s1 else s1)
      else s)"

definition depend :: "dep_id \<Rightarrow> world \<Rightarrow> world" where
  "depend d s = (case target s of Some t \<Rightarrow> addDep t d s | None \<Rightarrow> s)"

text \<open>The \<^verbatim>\<open>while (i--)\<close> loop of \<^verbatim>\<open>cleanupDeps\<close>, over the list still to visit
  (from its last element down).\<close>

fun cleanup_loop :: "wid \<Rightarrow> dep_id list \<Rightarrow> world \<Rightarrow> world" where
  "cleanup_loop w [] s = s"
| "cleanup_loop w (d # ds) s =
     cleanup_loop w ds
       (if d \<notin> newDepIds (watchers s w) then removeSub d w s else s)"

definition cleanupDeps :: "wid \<Rightarrow> world \<Rightarrow> world" where
  "cleanupDeps w s =
     (let s1 = cleanup_loop w (rev (deps (watchers s w))) s
      in upd_watcher w (\<lambda>W. W\<lparr>depIds := newDepIds W, newDepIds := {},
                                deps := newDeps W, newDeps := []\<rparr>) s1)"

section \<open>The active-computation stack\<close>

text \<open>The state of a freshly loaded module: no watcher, no subscriber, nothing queued.\<close>

definition empty_obj :: obj where
  "empty_obj =
     \<lparr>isArray = False, elems = [], props = [], ob = None, augmented = False,
      extensible = True, plain = True, isVue = False, isVNode = False, inherited = {}\<rparr>"

definition world0 :: world where
  "world0 = \<lparr>subs = (\<lambda>d. []), dep_uid = 0, target = None, targetStack = [],
     watchers = (\<lambda>w. \<lparr>vm = 0, expression = [], deep = False, user = False, computed = False,
        sync = False, dirty = False, active = True, dep = None, deps = [], newDeps = [],
        depIds = {}, newDepIds = {}, has_before = False, cached = Undefined\<rparr>),
     queue = [], has = (\<lambda>w. False), circular = (\<lambda>w. 0), waiting = False, flushing = False,
     index = 0, activatedChildren = [], log = [],
     heap = (\<lambda>a. empty_obj),
     cells = (\<lambda>c. \<lparr>c_obj = 0, c_key = Index 0, c_val = Undefined, c_dep = 0, childOb = None,
        c_getter = None, c_setter = None, c_customSetter = None, c_shallow = False\<rparr>),
     cell_uid = 0, shouldObserve = True\<rparr>"

lemma pushTarget_popTarget_active:
  "target s = Some t \<Longrightarrow> popTarget (pushTarget x s) = s"
  by (simp add: pushTarget_def popTarget_def)

lemma pushTarget_popTarget_idle:
  "target s = None \<Longrightarrow> targetStack s = [] \<Longrightarrow> popTarget (pushTarget x s) = s"
  by (simp add: pushTarget_def popTarget_def)

text \<open>
  C10. \<^verbatim>\<open>pushTarget(x)\<close> followed by the matching \<^verbatim>\<open>popTarget()\<close> should restore
  the active node \<open>T\<close>, also when \<open>T\<close> is none. The two lemmas above show that it does
  when \<open>T\<close> is a node, or when \<open>T\<close> is none and the stack is empty. It does not
  when \<open>T\<close> is none and the stack is not empty, which is the state inside
  \<^verbatim>\<open>getData\<close> called while watcher 1 is being evaluated: \<^verbatim>\<open>pushTarget\<close> pushes
  the old target only when there is one, so the pop of the nested pair takes watcher 1
  off the stack and makes it the active node again, where the active node was none.
\<close>

theorem pushTarget_popTarget_unbalanced:
  "target (pushTarget None (pushTarget (Some 1) world0)) = None \<and>
   target (popTarget (pushTarget (Some 2) (pushTarget None (pushTarget (Some 1) world0)))) = Some 1 \<and>
   target (popTarget (pushTarget None (pushTarget None (pushTarget (Some 1) world0)))) = Some 1"
  by (simp add: pushTarget_def popTarget_def world0_def)

section \<open>Registering and reconciling dependencies\<close>

text \<open>
  The invariant between the subscriber lists and the watchers' dependency sets: no
  subscriber list holds a watcher twice, a watcher stands only in the lists of Subjects
  of its previous-cycle or current-cycle set, and each set holds the ids of its list.
\<close>

definition subs_wf :: "world \<Rightarrow> bool" where
  "subs_wf s =
     ((\<forall>d. distinct (subs s d)) \<and>
      (\<forall>d w. w \<in> set (subs s d) \<longrightarrow> d \<in> depIds (watchers s w) \<union> newDepIds (watchers s w)) \<and>
      (\<forall>w. set (deps (watchers s w)) = depIds (watchers s w) \<and>
           set (newDeps (watchers s w)) = newDepIds (watchers s w)))"

lemma subs_wf_world0: "subs_wf world0"
  by (simp add: subs_wf_def world0_def)

lemma addDep_known: "d \<in> newDepIds (watchers s w) \<Longrightarrow> addDep w d s = s"
  by (simp add: addDep_def)

lemma addDep_subs:
  "subs (addDep w d s) d' =
     (if d' = d \<and> d \<notin> newDepIds (watchers s w) \<and> d \<notin> depIds (watchers s w)
      then subs s d @ [w] else subs s d')"
  by (simp add: addDep_def upd_watcher_def addSub_def Let_def)

lemma addDep_watchers:
  "watchers (addDep w d s) w' =
     (if w' = w \<and> d \<notin> newDepIds (watchers s w)
      then (watchers s w)\<lparr>newDepIds := insert d (newDepIds (watchers s w)),
                           newDeps := newDeps (watchers s w) @ [d]\<rparr>
      else watchers s w')"
  by (simp add: addDep_def upd_watcher_def addSub_def Let_def)

lemma addDep_idem: "addDep w d (addDep w d s) = addDep w d s"
  by (rule addDep_known) (simp add: addDep_watchers)

lemma addDep_wf: "subs_wf s \<Longrightarrow> subs_wf (addDep w d s)"
  unfolding subs_wf_def
  by (auto simp: addDep_subs addDep_watchers)

lemma cleanup_loop_watchers: "watchers (cleanup_loop w ds s) = watchers s"
  by (induction ds arbitrary: s) (auto simp: removeSub_def)

lemma removeSub_subs:
  "subs (removeSub a w s) d = (if d = a then remove1 w (subs s a) else subs s d)"
  by (simp add: removeSub_def)

lemma removeSub_watchers: "watchers (removeSub a w s) = watchers s"
  by (simp add: removeSub_def)

lemma cleanup_loop_subs:
  "distinct (subs s d) \<Longrightarrow>
   subs (cleanup_loop w ds s) d =
     (if d \<in> set ds \<and> d \<notin> newDepIds (watchers s w)
      then removeAll w (subs s d) else subs s d)"
proof (induction ds arbitrary: s)
  case Nil
  then show ?case by simp
next
  case (Cons a ds)
  let ?s1 = "if a \<notin> newDepIds (watchers s w) then removeSub a w s else s"
  have w1: "watchers ?s1 = watchers s"
    by (simp add: removeSub_watchers)
  have d1: "distinct (subs ?s1 d)"
    using Cons.prems by (auto simp: removeSub_subs)
  have step: "subs (cleanup_loop w (a # ds) s) d = subs (cleanup_loop w ds ?s1) d"
    by simp
  have s1: "subs ?s1 d =
      (if d = a \<and> a \<notin> newDepIds (watchers s w) then removeAll w (subs s d) else subs s d)"
    using Cons.prems by (auto simp: removeSub_subs distinct_remove1_removeAll)
  show ?case
    unfolding step Cons.IH [OF d1] w1 s1 by auto
qed

lemma cleanupDeps_subs:
  "distinct (subs s d) \<Longrightarrow>
   subs (cleanupDeps w s) d =
     (if d \<in> set (deps (watchers s w)) \<and> d \<notin> newDepIds (watchers s w)
      then removeAll w (subs s d) else subs s d)"
  by (simp add: cleanupDeps_def Let_def upd_watcher_def cleanup_loop_subs)

lemma cleanupDeps_watchers:
  "watchers (cleanupDeps w s) w' =
     (if w' = w
      then (watchers s w)\<lparr>depIds := newDepIds (watchers s w), newDepIds := {},
                           deps := newDeps (watchers s w), newDeps := []\<rparr>
      else watchers s w')"
  by (simp add: cleanupDeps_def Let_def upd_watcher_def cleanup_loop_watchers)

lemma cleanupDeps_wf: "subs_wf s \<Longrightarrow> subs_wf (cleanupDeps w s)"
  unfolding subs_wf_def
  by (auto simp: cleanupDeps_subs cleanupDeps_watchers distinct_removeAll split: if_splits)

text \<open>
  C6. Registering a dependency is idempotent within a cycle: \<^verbatim>\<open>addDep\<close> adds the
  Subject to the current-cycle set only if it is not there yet, and adds the node to the
  Subject's subscriber list only if the Subject is in neither the current-cycle nor the
  previous-cycle set. Under the invariant, after \<^verbatim>\<open>addDep\<close> and after
  \<^verbatim>\<open>cleanupDeps\<close> every subscriber list is still duplicate-free; \<^verbatim>\<open>cleanupDeps\<close>
  takes the node out of the list of every Subject read in the previous cycle but not in
  this one, leaves the lists of the Subjects read in this cycle alone, makes the
  current-cycle set the previous-cycle set and empties the current-cycle set; both
  operations keep the invariant.
\<close>

theorem addDep_cleanupDeps_reconcile:
  assumes wf: "subs_wf s"
  shows "addDep w d (addDep w d s) = addDep w d s \<and>
    (d \<in> newDepIds (watchers s w) \<longrightarrow> addDep w d s = s) \<and>
    newDepIds (watchers (addDep w d s) w) = insert d (newDepIds (watchers s w)) \<and>
    subs (addDep w d s) d =
      (if d \<notin> newDepIds (watchers s w) \<and> d \<notin> depIds (watchers s w)
       then subs s d @ [w] else subs s d) \<and>
    (\<forall>d'. distinct (subs (addDep w d s) d')) \<and>
    (\<forall>d'. distinct (subs (cleanupDeps w s) d')) \<and>
    (\<forall>d' \<in> depIds (watchers s w) - newDepIds (watchers s w).
        w \<notin> set (subs (cleanupDeps w s) d')) \<and>
    (\<forall>d' \<in> newDepIds (watchers s w). subs (cleanupDeps w s) d' = subs s d') \<and>
    depIds (watchers (cleanupDeps w s) w) = newDepIds (watchers s w) \<and>
    newDepIds (watchers (cleanupDeps w s) w) = {} \<and>
    subs_wf (addDep w d s) \<and> subs_wf (cleanupDeps w s)"
proof -
  have dist: "distinct (subs s d')" for d'
    using wf by (simp add: subs_wf_def)
  have ids: "set (deps (watchers s w)) = depIds (watchers s w)"
    using wf by (simp add: subs_wf_def)
  have a1: "\<forall>d'. distinct (subs (addDep w d s) d')"
    using addDep_wf [OF wf, of w d] by (simp add: subs_wf_def)
  have c1: "\<forall>d'. distinct (subs (cleanupDeps w s) d')"
    using cleanupDeps_wf [OF wf, of w] by (simp add: subs_wf_def)
  have c2: "\<forall>d' \<in> depIds (watchers s w) - newDepIds (watchers s w).
      w \<notin> set (subs (cleanupDeps w s) d')"
    using ids by (simp add: cleanupDeps_subs [OF dist])
  have c3: "\<forall>d' \<in> newDepIds (watchers s w). subs (cleanupDeps w s) d' = subs s d'"
    by (simp add: cleanupDeps_subs [OF dist])
  show ?thesis
    using a1 c1 c2 c3 addDep_wf [OF wf, of w d] cleanupDeps_wf [OF wf, of w]
    by (auto simp: addDep_idem addDep_known addDep_subs addDep_watchers cleanupDeps_watchers
        insert_absorb)
qed

text \<open>
  Watcher 1 read the Subjects 3 and 2 in its first evaluation and reads 3 and 4 in the
  second, which is still running.
\<close>

definition reconcile_example :: world where
  "reconcile_example =
     addDep 1 4 (addDep 1 3 (cleanupDeps 1 (addDep 1 2 (addDep 1 3 world0))))"

lemma reconcile_example_wf: "subs_wf reconcile_example"
  unfolding reconcile_example_def
  by (intro addDep_wf cleanupDeps_wf subs_wf_world0)

lemma reconcile_example_state:
  "depIds (watchers reconcile_example 1) = {2, 3} \<and>
   newDepIds (watchers reconcile_example 1) = {3, 4} \<and>
   subs reconcile_example 2 = [1] \<and> subs reconcile_example 3 = [1] \<and>
   subs reconcile_example 4 = [1] \<and> subs reconcile_example 5 = []"
  by (auto simp: reconcile_example_def addDep_subs addDep_watchers cleanupDeps_watchers
      cleanupDeps_subs world0_def)

theorem addDep_cleanupDeps_reconcile_witness:
  "subs_wf reconcile_example \<and>
   subs reconcile_example 2 = [1] \<and>
   addDep 1 3 reconcile_example = reconcile_example \<and>
   subs (addDep 1 5 reconcile_example) 5 = [1] \<and>
   subs (addDep 1 2 reconcile_example) 2 = [1] \<and>
   1 \<notin> set (subs (cleanupDeps 1 reconcile_example) 2) \<and>
   subs (cleanupDeps 1 reconcile_example) 3 = [1] \<and>
   subs (cleanupDeps 1 reconcile_example) 4 = [1] \<and>
   depIds (watchers (cleanupDeps 1 reconcile_example) 1) = {3, 4}"
  using addDep_cleanupDeps_reconcile [OF reconcile_example_wf, of 1 3]
    addDep_cleanupDeps_reconcile [OF reconcile_example_wf, of 1 5]
    addDep_cleanupDeps_reconcile [OF reconcile_example_wf, of 1 2]
    reconcile_example_state reconcile_example_wf
  by (simp add: world0_def)

section \<open>watcher.js: evaluation\<close>

text \<open>
  The code a watcher is built from is the caller's: its getter, its callback and its
  \<^verbatim>\<open>before\<close> hook, each any state transformer that returns or throws.
  \<open>production\<close> is \<^verbatim>\<open>process.env.NODE_ENV === 'production'\<close>, \<open>mounted_render\<close>
  is \<^verbatim>\<open>vm._watcher === watcher && vm._isMounted\<close> and \<open>devtools\<close> is
  \<^verbatim>\<open>devtools && config.devtools\<close>. \<open>user_get\<close> and \<open>user_set\<close> are the
  accessors that the caller has defined on objects, called with the object,
  \<open>customSetter\<close> the callbacks handed to \<^verbatim>\<open>defineReactive\<close>, and \<open>ssr\<close> is
  \<^verbatim>\<open>isServerRendering()\<close>.

  The arrays are the host's: \<open>native m a\<close> is the call of the method of
  \<^verbatim>\<open>Array.prototype\<close> on the array \<open>a\<close>, and \<open>set_length a v\<close> the assignment
  \<^verbatim>\<open>a.length = v\<close>. Each returns or throws as the host decides (an array that has
  been frozen or made non-extensible, a length above 2^32 - 1), and \<^verbatim>\<open>sort\<close> calls
  the caller's comparator.

  Modelled from the spec: \<^verbatim>\<open>traverse\<close> is not in src; it "walks the returned value
  structurally purely to force reads and thus dependency registration". The reads go
  through the accessors of the properties, so it returns or throws like them.
  Modelled from the spec: \<^verbatim>\<open>handleError\<close> is not in src; it is the "error-reporting
  hook invoked instead of throwing", recorded in the log with its context.
\<close>

record env =
  getter :: "wid \<Rightarrow> world \<Rightarrow> val outcome \<times> world"
  cb :: "wid \<Rightarrow> val \<Rightarrow> val \<Rightarrow> world \<Rightarrow> unit outcome \<times> world"
  before :: "wid \<Rightarrow> world \<Rightarrow> unit outcome \<times> world"
  traverse :: "val \<Rightarrow> world \<Rightarrow> unit outcome \<times> world"
  production :: bool
  mounted_render :: "wid \<Rightarrow> world \<Rightarrow> bool"
  devtools :: bool
  user_get :: "nat \<Rightarrow> addr \<Rightarrow> world \<Rightarrow> val outcome \<times> world"
  user_set :: "nat \<Rightarrow> addr \<Rightarrow> val \<Rightarrow> world \<Rightarrow> unit outcome \<times> world"
  customSetter :: "nat \<Rightarrow> world \<Rightarrow> unit outcome \<times> world"
  native :: "array_method \<Rightarrow> addr \<Rightarrow> world \<Rightarrow> ret outcome \<times> world"
  set_length :: "addr \<Rightarrow> val \<Rightarrow> world \<Rightarrow> unit outcome \<times> world"
  ssr :: bool

definition emit :: "event \<Rightarrow> world \<Rightarrow> world" where
  "emit e s = s\<lparr>log := log s @ [e]\<rparr>"

definition handleError :: "exn \<Rightarrow> string \<Rightarrow> world \<Rightarrow> world" where
  "handleError e info s = emit (HandleError e info) s"

definition quoted :: "string \<Rightarrow> string" where
  "quoted x = [CHR 0x22] @ x @ [CHR 0x22]"

text \<open>
  \<^verbatim>\<open>get\<close>. The \<^verbatim>\<open>finally\<close> block runs whether the getter has returned, its failure
  has been reported, or its failure is being thrown on; when the traversal in it throws,
  the rest of the block is skipped and that exception leaves \<^verbatim>\<open>get\<close>.
\<close>

definition get :: "env \<Rightarrow> wid \<Rightarrow> world \<Rightarrow> val outcome \<times> world" where
  "get E w s =
     (let s1 = pushTarget (Some w) s;
          (r, s2) = getter E w s1;
          (res, s3) =
            (case r of
               Ok v \<Rightarrow> (Ok v, s2)
             | Threw e \<Rightarrow>
                 if user (watchers s2 w)
                 then (Ok Undefined,
                       handleError e (''getter for watcher '' @ quoted (expression (watchers s2 w))) s2)
                 else (Threw e, s2))
      in case (if deep (watchers s3 w)
               then traverse E (case res of Ok v \<Rightarrow> v | Threw e \<Rightarrow> Undefined) s3
               else (Ok (), s3)) of
           (Threw e', s4) \<Rightarrow> (Threw e', s4)
         | (Ok u, s4) \<Rightarrow> (res, cleanupDeps w (popTarget s4)))"


text \<open>
  \<^verbatim>\<open>getAndInvoke(cb)\<close>; the callback is a parameter, as in the source, and may itself
  fail to return (\<open>None\<close>) when it is a notification that runs out of fuel.
\<close>

definition getAndInvoke ::
  "env \<Rightarrow> wid \<Rightarrow> (val \<Rightarrow> val \<Rightarrow> world \<Rightarrow> (unit outcome \<times> world) option) \<Rightarrow>
   world \<Rightarrow> (unit outcome \<times> world) option" where
  "getAndInvoke E w f s =
     (case get E w s of
        (Threw e, s1) \<Rightarrow> Some (Threw e, s1)
      | (Ok v, s1) \<Rightarrow>
          if \<not> strict_eq v (cached (watchers s1 w)) \<or> isObject v \<or> deep (watchers s1 w)
          then
            (let oldValue = cached (watchers s1 w);
                 s2 = upd_watcher w (\<lambda>W. W\<lparr>cached := v, dirty := False\<rparr>) s1
             in if user (watchers s2 w)
                then (case f v oldValue s2 of
                        None \<Rightarrow> None
                      | Some (Threw e, s3) \<Rightarrow>
                          Some (Ok (), handleError e
                            (''callback for watcher '' @ quoted (expression (watchers s3 w))) s3)
                      | Some (Ok u, s3) \<Rightarrow> Some (Ok (), s3))
                else f v oldValue s2)
          else Some (Ok (), s1))"

definition run :: "env \<Rightarrow> wid \<Rightarrow> world \<Rightarrow> (unit outcome \<times> world) option" where
  "run E w s =
     (if active (watchers s w)
      then getAndInvoke E w (\<lambda>v old s'. Some (cb E w v old s')) s
      else Some (Ok (), s))"

definition evaluate :: "env \<Rightarrow> wid \<Rightarrow> world \<Rightarrow> val outcome \<times> world" where
  "evaluate E w s =
     (if dirty (watchers s w)
      then (case get E w s of
              (Threw e, s1) \<Rightarrow> (Threw e, s1)
            | (Ok v, s1) \<Rightarrow>
                (Ok v, upd_watcher w (\<lambda>W. W\<lparr>cached := v, dirty := False\<rparr>) s1))
      else (Ok (cached (watchers s w)), s))"

section \<open>scheduler.js: the queue\<close>

text \<open>The \<^verbatim>\<open>while\<close> loop of \<^verbatim>\<open>queueWatcher\<close>; \<open>i\<close> is -1 on an empty queue.\<close>

function splice_scan :: "wid list \<Rightarrow> nat \<Rightarrow> wid \<Rightarrow> int \<Rightarrow> int" where
  "splice_scan q idx w i =
     (if i > int idx \<and> q ! nat i > w then splice_scan q idx w (i - 1) else i)"
  by pat_completeness auto
termination
  by (relation "measure (\<lambda>(q, idx, w, i). nat i)") auto

text \<open>\<^verbatim>\<open>queue.splice(p, 0, w)\<close> for a position \<open>0 \<le> p \<le> length q\<close>.\<close>

definition splice_in :: "nat \<Rightarrow> wid \<Rightarrow> wid list \<Rightarrow> wid list" where
  "splice_in p w q = take p q @ [w] @ drop p q"

definition queueWatcher :: "wid \<Rightarrow> world \<Rightarrow> world" where
  "queueWatcher w s =
     (if \<not> has s w then
        (let s1 = s\<lparr>has := (has s)(w := True)\<rparr>;
             s2 = (if \<not> flushing s1 then s1\<lparr>queue := queue s1 @ [w]\<rparr>
                   else (let i = splice_scan (queue s1) (index s1) w (int (length (queue s1)) - 1)
                         in s1\<lparr>queue := splice_in (nat (i + 1)) w (queue s1)\<rparr>))
         in if \<not> waiting s2 then emit NextTick (s2\<lparr>waiting := True\<rparr>) else s2)
      else s)"

section \<open>Notification\<close>

text \<open>
  \<^verbatim>\<open>Dep.notify\<close> and \<^verbatim>\<open>Watcher.update\<close> call each other: a computed watcher with
  subscribers notifies its own Subject, whose subscribers may be computed watchers again.
  Nothing bounds that chain (a computed watcher can subscribe to itself), so each
  \<^verbatim>\<open>notify\<close> takes one unit of fuel and \<open>None\<close> stands for not returning. A
  computed watcher always has a Subject of its own; reading \<^verbatim>\<open>this.dep.subs\<close> of one
  without is the TypeError of the source language.
\<close>

fun notify :: "nat \<Rightarrow> env \<Rightarrow> dep_id \<Rightarrow> world \<Rightarrow> (unit outcome \<times> world) option"
  and notify_loop :: "nat \<Rightarrow> env \<Rightarrow> wid list \<Rightarrow> world \<Rightarrow> (unit outcome \<times> world) option"
  and update :: "nat \<Rightarrow> env \<Rightarrow> wid \<Rightarrow> world \<Rightarrow> (unit outcome \<times> world) option"
where
  "notify 0 E d s = None"
| "notify (Suc n) E d s = notify_loop n E (subs s d) (emit (Notify d) s)"
| "notify_loop n E [] s = Some (Ok (), s)"
| "notify_loop n E (w # ws) s =
     (case update n E w s of
        None \<Rightarrow> None
      | Some (Threw e, s1) \<Rightarrow> Some (Threw e, s1)
      | Some (Ok u, s1) \<Rightarrow> notify_loop n E ws s1)"
| "update n E w s =
     (if computed (watchers s w) then
        (case dep (watchers s w) of
           None \<Rightarrow> Some (Threw (TypeError ''Cannot read property subs of undefined''), s)
         | Some d \<Rightarrow>
             if subs s d = [] then Some (Ok (), upd_watcher w (\<lambda>W. W\<lparr>dirty := True\<rparr>) s)
             else getAndInvoke E w (\<lambda>v old s'. notify n E d s') s)
      else if sync (watchers s w) then run E w s
      else Some (Ok (), queueWatcher w s))"

section \<open>scheduler.js: the flush\<close>

definition MAX_UPDATE_COUNT :: nat where
  "MAX_UPDATE_COUNT = 100"

definition resetSchedulerState :: "env \<Rightarrow> world \<Rightarrow> world" where
  "resetSchedulerState E s =
     s\<lparr>index := 0, queue := [], activatedChildren := [],
       has := (\<lambda>w. False),
       circular := (if \<not> production E then (\<lambda>w. 0) else circular s),
       waiting := False, flushing := False\<rparr>"

definition loop_warning :: "watcher \<Rightarrow> string" where
  "loop_warning W =
     ''You may have an infinite update loop '' @
     (if user W then ''in watcher with expression '' @ quoted (expression W)
      else ''in a component render function.'')"

datatype step = Continue | Break

text \<open>
  One turn of the \<^verbatim>\<open>for\<close> loop of \<^verbatim>\<open>flushSchedulerQueue\<close>, at
  \<open>index s < length (queue s)\<close>, up to the \<^verbatim>\<open>index++\<close>.
\<close>

definition flush_body :: "env \<Rightarrow> world \<Rightarrow> (step outcome \<times> world) option" where
  "flush_body E s =
     (let w = queue s ! index s
      in case (if has_before (watchers s w) then before E w s else (Ok (), s)) of
           (Threw e, s1) \<Rightarrow> Some (Threw e, s1)
         | (Ok u, s1) \<Rightarrow>
             (let s2 = emit (RunWatcher w) (s1\<lparr>has := (has s1)(w := False)\<rparr>)
              in case run E w s2 of
                   None \<Rightarrow> None
                 | Some (Threw e, s3) \<Rightarrow> Some (Threw e, s3)
                 | Some (Ok u', s3) \<Rightarrow>
                     if \<not> production E \<and> has s3 w then
                       (let s4 = s3\<lparr>circular := (circular s3)(w := circular s3 w + 1)\<rparr>
                        in if circular s4 w > MAX_UPDATE_COUNT
                           then Some (Ok Break, emit (Warn (loop_warning (watchers s4 w))) s4)
                           else Some (Ok Continue, s4))
                     else Some (Ok Continue, s3)))"

text \<open>
  The loop itself. The queue can grow while it runs, so nothing bounds the number of
  turns: each turn takes one unit of fuel, and \<open>None\<close> stands for a loop still running
  when the fuel is used up.
\<close>

fun flush_loop :: "nat \<Rightarrow> env \<Rightarrow> world \<Rightarrow> (unit outcome \<times> world) option" where
  "flush_loop 0 E s = (if index s < length (queue s) then None else Some (Ok (), s))"
| "flush_loop (Suc n) E s =
     (if index s < length (queue s) then
        (case flush_body E s of
           None \<Rightarrow> None
         | Some (Threw e, s1) \<Rightarrow> Some (Threw e, s1)
         | Some (Ok Break, s1) \<Rightarrow> Some (Ok (), s1)
         | Some (Ok Continue, s1) \<Rightarrow> flush_loop n E (s1\<lparr>index := index s1 + 1\<rparr>))
      else Some (Ok (), s))"

text \<open>\<^verbatim>\<open>callActivatedHooks\<close> and \<^verbatim>\<open>callUpdatedHooks\<close>, the latter from the last
  watcher of the queue down.\<close>

definition callActivatedHooks :: "nat list \<Rightarrow> world \<Rightarrow> world" where
  "callActivatedHooks vms s = fold (\<lambda>c. emit (ActivateChild c)) vms s"

definition callUpdatedHooks :: "env \<Rightarrow> wid list \<Rightarrow> world \<Rightarrow> world" where
  "callUpdatedHooks E q s =
     fold (\<lambda>w s'. if mounted_render E w s' then emit (CallHookUpdated (vm (watchers s' w))) s'
                     else s') (rev q) s"

definition flushSchedulerQueue :: "nat \<Rightarrow> env \<Rightarrow> world \<Rightarrow> (unit outcome \<times> world) option" where
  "flushSchedulerQueue n E s =
     (case flush_loop n E (s\<lparr>flushing := True, queue := sort (queue s), index := 0\<rparr>) of
        None \<Rightarrow> None
      | Some (Threw e, s1) \<Rightarrow> Some (Threw e, s1)
      | Some (Ok u, s1) \<Rightarrow>
          (let activatedQueue = activatedChildren s1;
               updatedQueue = queue s1;
               s2 = resetSchedulerState E s1;
               s3 = callUpdatedHooks E updatedQueue (callActivatedHooks activatedQueue s2)
           in Some (Ok (), if devtools E then emit DevtoolsFlush s3 else s3)))"

section \<open>The observer: index.js\<close>

definition upd_obj :: "addr \<Rightarrow> (obj \<Rightarrow> obj) \<Rightarrow> world \<Rightarrow> world" where
  "upd_obj a f s = s\<lparr>heap := (heap s)(a := f (heap s a))\<rparr>"

definition upd_cell :: "nat \<Rightarrow> (cell \<Rightarrow> cell) \<Rightarrow> world \<Rightarrow> world" where
  "upd_cell c f s = s\<lparr>cells := (cells s)(c := f (cells s c))\<rparr>"

text \<open>\<^verbatim>\<open>new Dep()\<close>: the next id, with no subscriber.\<close>

definition newDep :: "world \<Rightarrow> dep_id \<times> world" where
  "newDep s = (dep_uid s, s\<lparr>dep_uid := Suc (dep_uid s), subs := (subs s)(dep_uid s := [])\<rparr>)"

text \<open>The keys of \<^verbatim>\<open>Object.prototype\<close>.\<close>

definition object_prototype :: "key set" where
  "object_prototype =
     Name ` {''constructor'', ''hasOwnProperty'', ''isPrototypeOf'', ''propertyIsEnumerable'',
             ''toLocaleString'', ''toString'', ''valueOf'', ''__proto__'',
             ''__defineGetter__'', ''__defineSetter__'', ''__lookupGetter__'',
             ''__lookupSetter__''}"

text \<open>\<^verbatim>\<open>key in target\<close>, for an object; \<^verbatim>\<open>__ob__\<close> is an own key of every object
  that holds an observer.\<close>

definition key_in :: "obj \<Rightarrow> key \<Rightarrow> bool" where
  "key_in oj k =
     (map_of (props oj) k \<noteq> None \<or> (k = Name ''__ob__'' \<and> ob oj \<noteq> None) \<or>
      k \<in> inherited oj \<or> k \<in> object_prototype \<or>
      (isArray oj \<and> (case k of Index i \<Rightarrow> i < length (elems oj) | Name x \<Rightarrow> x = ''length'')))"

text \<open>\<^verbatim>\<open>Object.keys\<close>: the enumerable own keys, the indices first, in ascending order,
  then the names in the order of their creation.\<close>

definition Object_keys :: "obj \<Rightarrow> key list" where
  "Object_keys oj =
     map Index ((if isArray oj then [0..<length (elems oj)] else []) @
                sort (concat (map (\<lambda>(k, p). case k of Index i \<Rightarrow> if enumerable p then [i] else []
                                             | Name x \<Rightarrow> []) (props oj)))) @
     concat (map (\<lambda>(k, p). case k of Name x \<Rightarrow> if enumerable p then [Name x] else []
                            | Index i \<Rightarrow> []) (props oj))"

text \<open>The values that count as true in a condition.\<close>

definition truthy :: "val \<Rightarrow> bool" where
  "truthy v =
     (case v of Undefined \<Rightarrow> False | Null \<Rightarrow> False | Bool b \<Rightarrow> b | Num i \<Rightarrow> i \<noteq> 0
              | NaN \<Rightarrow> False | Str x \<Rightarrow> x \<noteq> [] | Ref a \<Rightarrow> True)"

text \<open>
  The element \<open>i\<close> of the array that a loop walks: an array of the heap, read as it
  is at that moment, or the argument list of a call.
\<close>

definition item_at :: "addr + val list \<Rightarrow> nat \<Rightarrow> world \<Rightarrow> val" where
  "item_at src i s =
     (let xs = (case src of Inl a \<Rightarrow> elems (heap s a) | Inr ys \<Rightarrow> ys)
      in if i < length xs then xs ! i else Undefined)"

text \<open>
  What \<^verbatim>\<open>x.__ob__\<close> evaluates to: the observer in the slot, or the value of a property
  of that name.
\<close>

datatype obval = IsOb observer | NotOb val

text \<open>
  Reading a property, \<^verbatim>\<open>reactiveGetter\<close> and \<^verbatim>\<open>dependArray\<close> call each other: a
  getter that \<^verbatim>\<open>defineReactive\<close> found on the property can be a reactive getter
  itself, \<^verbatim>\<open>dependArray\<close> follows arrays nested in arrays (an array can hold itself)
  and reads \<^verbatim>\<open>__ob__\<close> of every element. Each body is written over the
  \<^verbatim>\<open>reactiveGetter\<close> (\<open>rg\<close>) and the \<^verbatim>\<open>dependArray\<close> (\<open>da\<close>) that it
  calls; \<open>reading\<close> ties the knot, one unit of fuel for each nested call of either.

  \<open>get_prop\<close> is \<^verbatim>\<open>obj[key]\<close>. The values of inherited properties are not modelled,
  nor is the observer as the value of \<^verbatim>\<open>obj['__ob__']\<close>: \<open>read_ob\<close> is
  \<^verbatim>\<open>x.__ob__\<close>. \<open>member\<close> is \<^verbatim>\<open>x.name\<close> for a value that is no observer, and
  \<open>invoke\<close> the call \<^verbatim>\<open>x.a.b()\<close> on such a value: no value of the model is a
  function, so the call is the TypeError of the source language, after the reads.
  \<open>depend_elem\<close> is \<^verbatim>\<open>e && e.__ob__ && e.__ob__.dep.depend()\<close>.
\<close>

type_synonym rg_fn = "nat \<Rightarrow> world \<Rightarrow> (val outcome \<times> world) option"

type_synonym da_fn = "addr \<Rightarrow> world \<Rightarrow> (unit outcome \<times> world) option"

definition call_get_with :: "rg_fn \<Rightarrow> env \<Rightarrow> gfn \<Rightarrow> addr \<Rightarrow> world \<Rightarrow> (val outcome \<times> world) option" where
  "call_get_with rg E g a s =
     (case g of UserGet u \<Rightarrow> Some (user_get E u a s) | ReactiveGet c \<Rightarrow> rg c s)"

definition get_prop_with :: "rg_fn \<Rightarrow> env \<Rightarrow> addr \<Rightarrow> key \<Rightarrow> world \<Rightarrow> (val outcome \<times> world) option" where
  "get_prop_with rg E a k s =
     (let oj = heap s a
      in case (case k of Index i \<Rightarrow> if isArray oj \<and> i < length (elems oj)
                                      then Some (elems oj ! i) else None
                       | Name x \<Rightarrow> None) of
           Some v \<Rightarrow> Some (Ok v, s)
         | None \<Rightarrow>
             (case map_of (props oj) k of
                Some p \<Rightarrow>
                  (case slot p of
                     Data v \<Rightarrow> Some (Ok v, s)
                   | Accessor g f \<Rightarrow>
                       (case g of Some g' \<Rightarrow> call_get_with rg E g' a s
                                | None \<Rightarrow> Some (Ok Undefined, s)))
              | None \<Rightarrow> Some (Ok Undefined, s)))"

definition read_ob_with :: "rg_fn \<Rightarrow> env \<Rightarrow> val \<Rightarrow> world \<Rightarrow> (obval outcome \<times> world) option" where
  "read_ob_with rg E v s =
     (case v of
        Ref a \<Rightarrow>
          (case ob (heap s a) of
             Some b \<Rightarrow> Some (Ok (IsOb b), s)
           | None \<Rightarrow>
               (case get_prop_with rg E a (Name ''__ob__'') s of
                  None \<Rightarrow> None
                | Some (Threw e, s1) \<Rightarrow> Some (Threw e, s1)
                | Some (Ok x, s1) \<Rightarrow> Some (Ok (NotOb x), s1)))
      | Undefined \<Rightarrow> Some (Threw (TypeError ''Cannot read property __ob__ of undefined''), s)
      | Null \<Rightarrow> Some (Threw (TypeError ''Cannot read property __ob__ of null''), s)
      | _ \<Rightarrow> Some (Ok (NotOb Undefined), s))"

definition member_with :: "rg_fn \<Rightarrow> env \<Rightarrow> val \<Rightarrow> string \<Rightarrow> world \<Rightarrow> (val outcome \<times> world) option" where
  "member_with rg E v x s =
     (case v of
        Ref a \<Rightarrow> get_prop_with rg E a (Name x) s
      | Undefined \<Rightarrow> Some (Threw (TypeError (''Cannot read property '' @ x @ '' of undefined'')), s)
      | Null \<Rightarrow> Some (Threw (TypeError (''Cannot read property '' @ x @ '' of null'')), s)
      | _ \<Rightarrow> Some (Ok Undefined, s))"

fun invoke_with :: "rg_fn \<Rightarrow> env \<Rightarrow> val \<Rightarrow> string list \<Rightarrow> world \<Rightarrow> (unit outcome \<times> world) option" where
  "invoke_with rg E v [] s = Some (Threw (TypeError ''not a function''), s)"
| "invoke_with rg E v (x # xs) s =
     (case member_with rg E v x s of
        None \<Rightarrow> None
      | Some (Threw e, s1) \<Rightarrow> Some (Threw e, s1)
      | Some (Ok v1, s1) \<Rightarrow> invoke_with rg E v1 xs s1)"

definition depend_elem_with :: "rg_fn \<Rightarrow> env \<Rightarrow> val \<Rightarrow> world \<Rightarrow> (unit outcome \<times> world) option" where
  "depend_elem_with rg E e s =
     (if \<not> truthy e then Some (Ok (), s)
      else case read_ob_with rg E e s of
             None \<Rightarrow> None
           | Some (Threw x, s1) \<Rightarrow> Some (Threw x, s1)
           | Some (Ok (IsOb b), s1) \<Rightarrow> Some (Ok (), depend (ob_dep b) s1)
           | Some (Ok (NotOb x), s1) \<Rightarrow>
               if \<not> truthy x then Some (Ok (), s1)
               else (case read_ob_with rg E e s1 of
                       None \<Rightarrow> None
                     | Some (Threw x', s2) \<Rightarrow> Some (Threw x', s2)
                     | Some (Ok (IsOb b), s2) \<Rightarrow> Some (Ok (), depend (ob_dep b) s2)
                     | Some (Ok (NotOb x'), s2) \<Rightarrow> invoke_with rg E x' [''dep'', ''depend''] s2))"

text \<open>The loop of \<^verbatim>\<open>dependArray\<close>, over the indices still to visit.\<close>

fun dependArray_loop_with ::
  "rg_fn \<Rightarrow> da_fn \<Rightarrow> env \<Rightarrow> addr \<Rightarrow> nat list \<Rightarrow> world \<Rightarrow> (unit outcome \<times> world) option" where
  "dependArray_loop_with rg da E a [] s = Some (Ok (), s)"
| "dependArray_loop_with rg da E a (i # is) s =
     (case depend_elem_with rg E (item_at (Inl a) i s) s of
        None \<Rightarrow> None
      | Some (Threw x, s1) \<Rightarrow> Some (Threw x, s1)
      | Some (Ok u, s1) \<Rightarrow>
          (case (case item_at (Inl a) i s of
                   Ref b \<Rightarrow> if isArray (heap s1 b) then da b s1 else Some (Ok (), s1)
                 | _ \<Rightarrow> Some (Ok (), s1)) of
             None \<Rightarrow> None
           | Some (Threw x, s2) \<Rightarrow> Some (Threw x, s2)
           | Some (Ok u', s2) \<Rightarrow> dependArray_loop_with rg da E a is s2))"

definition dependArray_with :: "rg_fn \<Rightarrow> da_fn \<Rightarrow> env \<Rightarrow> addr \<Rightarrow> world \<Rightarrow> (unit outcome \<times> world) option" where
  "dependArray_with rg da E a s =
     dependArray_loop_with rg da E a [0..<length (elems (heap s a))] s"

definition reactiveGetter_with :: "rg_fn \<Rightarrow> da_fn \<Rightarrow> env \<Rightarrow> nat \<Rightarrow> world \<Rightarrow> (val outcome \<times> world) option" where
  "reactiveGetter_with rg da E c s =
     (case (case c_getter (cells s c) of
              None \<Rightarrow> Some (Ok (c_val (cells s c)), s)
            | Some g \<Rightarrow> call_get_with rg E g (c_obj (cells s c)) s) of
        None \<Rightarrow> None
      | Some (Threw e, s1) \<Rightarrow> Some (Threw e, s1)
      | Some (Ok v, s1) \<Rightarrow>
          if target s1 \<noteq> None then
            (let s2 = depend (c_dep (cells s1 c)) s1
             in case childOb (cells s2 c) of
                  None \<Rightarrow> Some (Ok v, s2)
                | Some d \<Rightarrow>
                    (let s3 = depend d s2
                     in case v of
                          Ref a \<Rightarrow>
                            if isArray (heap s3 a)
                            then (case da a s3 of
                                    None \<Rightarrow> None
                                  | Some (Threw e, s4) \<Rightarrow> Some (Threw e, s4)
                                  | Some (Ok u, s4) \<Rightarrow> Some (Ok v, s4))
                            else Some (Ok v, s3)
                        | _ \<Rightarrow> Some (Ok v, s3)))
          else Some (Ok v, s1))"

primrec reading :: "nat \<Rightarrow> env \<Rightarrow> rg_fn \<times> da_fn" where
  "reading 0 E = ((\<lambda>c s. None), (\<lambda>a s. None))"
| "reading (Suc n) E =
     (reactiveGetter_with (fst (reading n E)) (snd (reading n E)) E,
      dependArray_with (fst (reading n E)) (snd (reading n E)) E)"

definition reactiveGetter :: "nat \<Rightarrow> env \<Rightarrow> rg_fn" where
  "reactiveGetter n E = fst (reading n E)"

definition dependArray :: "nat \<Rightarrow> env \<Rightarrow> da_fn" where
  "dependArray n E = snd (reading n E)"

definition call_get :: "nat \<Rightarrow> env \<Rightarrow> gfn \<Rightarrow> addr \<Rightarrow> world \<Rightarrow> (val outcome \<times> world) option" where
  "call_get n E = call_get_with (reactiveGetter n E) E"

definition get_prop :: "nat \<Rightarrow> env \<Rightarrow> addr \<Rightarrow> key \<Rightarrow> world \<Rightarrow> (val outcome \<times> world) option" where
  "get_prop n E = get_prop_with (reactiveGetter n E) E"

definition read_ob :: "nat \<Rightarrow> env \<Rightarrow> val \<Rightarrow> world \<Rightarrow> (obval outcome \<times> world) option" where
  "read_ob n E = read_ob_with (reactiveGetter n E) E"

definition member :: "nat \<Rightarrow> env \<Rightarrow> val \<Rightarrow> string \<Rightarrow> world \<Rightarrow> (val outcome \<times> world) option" where
  "member n E = member_with (reactiveGetter n E) E"

definition invoke :: "nat \<Rightarrow> env \<Rightarrow> val \<Rightarrow> string list \<Rightarrow> world \<Rightarrow> (unit outcome \<times> world) option" where
  "invoke n E = invoke_with (reactiveGetter n E) E"


lemma reactiveGetter_0: "reactiveGetter 0 E c s = None"
  by (simp add: reactiveGetter_def)

lemma dependArray_0: "dependArray 0 E a s = None"
  by (simp add: dependArray_def)

lemma reactiveGetter_Suc:
  "reactiveGetter (Suc n) E = reactiveGetter_with (reactiveGetter n E) (dependArray n E) E"
  by (simp add: reactiveGetter_def dependArray_def)

lemma dependArray_Suc:
  "dependArray (Suc n) E = dependArray_with (reactiveGetter n E) (dependArray n E) E"
  by (simp add: reactiveGetter_def dependArray_def)


text \<open>
  \<^verbatim>\<open>Object.getOwnPropertyDescriptor(obj, key)\<close>, as far as \<^verbatim>\<open>defineReactive\<close>
  looks at it; the value of the descriptor of \<^verbatim>\<open>__ob__\<close> is not modelled.
  \<^verbatim>\<open>defineReactive\<close> is not called with an index of an array (\<^verbatim>\<open>walk\<close> is for
  objects, and \<^verbatim>\<open>set\<close> splices).
\<close>

definition own_desc :: "obj \<Rightarrow> key \<Rightarrow> pdesc option" where
  "own_desc oj k =
     (if isArray oj \<and> k = Name ''length''
      then Some \<lparr>configurable = False, enumerable = False,
                 slot = Data (Num (int (length (elems oj))))\<rparr>
      else if k = Name ''__ob__'' \<and> ob oj \<noteq> None
      then Some \<lparr>configurable = True, enumerable = False, slot = Data Undefined\<rparr>
      else map_of (props oj) k)"

text \<open>
  \<^verbatim>\<open>observe\<close>, the constructor of \<^verbatim>\<open>Observer\<close> with \<^verbatim>\<open>walk\<close> and
  \<^verbatim>\<open>observeArray\<close>, and \<^verbatim>\<open>defineReactive\<close> call each other, as deep as the
  objects nest. Each body is written over the \<^verbatim>\<open>observe\<close> that it calls,
  \<open>rec\<close>; \<open>observe\<close> itself ties the knot, one unit of fuel for each level. An
  observer is returned as its Subject.
\<close>

type_synonym observe_fn = "val \<Rightarrow> bool \<Rightarrow> world \<Rightarrow> (dep_id option outcome \<times> world) option"

text \<open>
  \<^verbatim>\<open>defineReactive\<close>; the value argument is absent when it is called with two
  arguments. Defining a new property on an object that is not extensible is the
  TypeError of the source language.
\<close>

definition defineReactive_with ::
  "observe_fn \<Rightarrow> nat \<Rightarrow> env \<Rightarrow> addr \<Rightarrow> key \<Rightarrow> val option \<Rightarrow> nat option \<Rightarrow> bool \<Rightarrow> world \<Rightarrow>
   (unit outcome \<times> world) option" where
  "defineReactive_with rec n E a k valopt custom shallow s =
     (let (d, s1) = newDep s;
          property = own_desc (heap s1 a) k
      in if (case property of Some p \<Rightarrow> \<not> configurable p | None \<Rightarrow> False)
         then Some (Ok (), s1)
         else
           (let getter = (case property of
                            Some p \<Rightarrow> (case slot p of Accessor g f \<Rightarrow> g | Data v \<Rightarrow> None)
                          | None \<Rightarrow> None);
                setter = (case property of
                            Some p \<Rightarrow> (case slot p of Accessor g f \<Rightarrow> f | Data v \<Rightarrow> None)
                          | None \<Rightarrow> None)
            in case (if (getter = None \<or> setter \<noteq> None) \<and> valopt = None
                     then get_prop n E a k s1
                     else Some (Ok (case valopt of Some v \<Rightarrow> v | None \<Rightarrow> Undefined), s1)) of
                 None \<Rightarrow> None
               | Some (Threw e, s2) \<Rightarrow> Some (Threw e, s2)
               | Some (Ok v, s2) \<Rightarrow>
                   (case (if shallow then Some (Ok None, s2) else rec v False s2) of
                      None \<Rightarrow> None
                    | Some (Threw e, s3) \<Rightarrow> Some (Threw e, s3)
                    | Some (Ok ch, s3) \<Rightarrow>
                        if own_desc (heap s3 a) k = None \<and> \<not> extensible (heap s3 a)
                        then Some (Threw (TypeError
                               ''Cannot define property, object is not extensible''), s3)
                        else if (case own_desc (heap s3 a) k of
                                   Some p \<Rightarrow> \<not> configurable p | None \<Rightarrow> False)
                        then Some (Threw (TypeError ''Cannot redefine property''), s3)
                        else
                          (let c = cell_uid s3;
                               s4 = s3\<lparr>cell_uid := Suc c,
                                       cells := (cells s3)(c :=
                                         \<lparr>c_obj = a, c_key = k, c_val = v, c_dep = d,
                                          childOb = ch, c_getter = getter, c_setter = setter,
                                          c_customSetter = custom, c_shallow = shallow\<rparr>)\<rparr>
                           in Some (Ok (),
                                upd_obj a (\<lambda>oj. oj\<lparr>props := AList.update k
                                    \<lparr>configurable = True, enumerable = True,
                                     slot = Accessor (Some (ReactiveGet c)) (Some (ReactiveSet c))\<rparr>
                                    (props oj),
                                  ob := (if k = Name ''__ob__'' then None else ob oj)\<rparr>) s4)))))"

text \<open>The loop of \<^verbatim>\<open>walk\<close>, over the keys still to visit.\<close>

fun walk_with ::
  "observe_fn \<Rightarrow> nat \<Rightarrow> env \<Rightarrow> addr \<Rightarrow> key list \<Rightarrow> world \<Rightarrow> (unit outcome \<times> world) option" where
  "walk_with rec n E a [] s = Some (Ok (), s)"
| "walk_with rec n E a (k # ks) s =
     (case defineReactive_with rec n E a k None None False s of
        None \<Rightarrow> None
      | Some (Threw e, s1) \<Rightarrow> Some (Threw e, s1)
      | Some (Ok u, s1) \<Rightarrow> walk_with rec n E a ks s1)"

text \<open>The loop of \<^verbatim>\<open>observeArray\<close>, over the indices still to visit.\<close>

fun observeArray_with ::
  "observe_fn \<Rightarrow> addr + val list \<Rightarrow> nat list \<Rightarrow> world \<Rightarrow> (unit outcome \<times> world) option" where
  "observeArray_with rec src [] s = Some (Ok (), s)"
| "observeArray_with rec src (i # is) s =
     (case rec (item_at src i s) False s of
        None \<Rightarrow> None
      | Some (Threw e, s1) \<Rightarrow> Some (Threw e, s1)
      | Some (Ok u, s1) \<Rightarrow> observeArray_with rec src is s1)"

text \<open>
  \<^verbatim>\<open>def(value, '__ob__', this)\<close> for the new observer with the Subject \<open>d\<close>: the
  slot takes the observer, whatever property of that name there was; a property that is
  not configurable, or an object that is not extensible and has none, makes it the
  TypeError of the source language.
\<close>

definition def_ob :: "addr \<Rightarrow> dep_id \<Rightarrow> world \<Rightarrow> unit outcome \<times> world" where
  "def_ob a d s =
     (case own_desc (heap s a) (Name ''__ob__'') of
        Some p \<Rightarrow>
          if configurable p
          then (Ok (), upd_obj a (\<lambda>oj. oj\<lparr>props := AList.delete (Name ''__ob__'') (props oj),
                                          ob := Some \<lparr>ob_dep = d, vmCount = 0\<rparr>\<rparr>) s)
          else (Threw (TypeError ''Cannot redefine property: __ob__''), s)
      | None \<Rightarrow>
          if extensible (heap s a)
          then (Ok (), upd_obj a (\<lambda>oj. oj\<lparr>ob := Some \<lparr>ob_dep = d, vmCount = 0\<rparr>\<rparr>) s)
          else (Threw (TypeError ''Cannot define property __ob__, object is not extensible''), s))"

text \<open>The constructor of \<^verbatim>\<open>Observer\<close>, for the object \<open>a\<close>; it returns the Subject
  of the new observer.\<close>

definition newObserver_with ::
  "observe_fn \<Rightarrow> nat \<Rightarrow> env \<Rightarrow> addr \<Rightarrow> world \<Rightarrow> (dep_id outcome \<times> world) option" where
  "newObserver_with rec n E a s =
     (let (d, s1) = newDep s
      in case def_ob a d s1 of
           (Threw e, s2) \<Rightarrow> Some (Threw e, s2)
         | (Ok u, s2) \<Rightarrow>
             (case (if isArray (heap s2 a)
                    then (let s3 = upd_obj a (\<lambda>oj. oj\<lparr>augmented := True\<rparr>) s2
                          in observeArray_with rec (Inl a) [0..<length (elems (heap s3 a))] s3)
                    else walk_with rec n E a (Object_keys (heap s2 a)) s2) of
                None \<Rightarrow> None
              | Some (Threw e, s4) \<Rightarrow> Some (Threw e, s4)
              | Some (Ok u', s4) \<Rightarrow> Some (Ok d, s4)))"

text \<open>\<^verbatim>\<open>ob.vmCount++\<close> for the observer with the Subject \<open>d\<close>, made for the object
  \<open>a\<close>; an observer that the slot holds no longer is out of reach.\<close>

definition count_root :: "addr \<Rightarrow> dep_id \<Rightarrow> world \<Rightarrow> world" where
  "count_root a d s =
     (case ob (heap s a) of
        Some b \<Rightarrow> if ob_dep b = d
                  then upd_obj a (\<lambda>oj. oj\<lparr>ob := Some (b\<lparr>vmCount := vmCount b + 1\<rparr>)\<rparr>) s
                  else s
      | None \<Rightarrow> s)"

definition observe_with ::
  "observe_fn \<Rightarrow> nat \<Rightarrow> env \<Rightarrow> val \<Rightarrow> bool \<Rightarrow> world \<Rightarrow> (dep_id option outcome \<times> world) option" where
  "observe_with rec n E v asRootData s =
     (case v of
        Ref a \<Rightarrow>
          if isVNode (heap s a) then Some (Ok None, s)
          else
            (case (if own_desc (heap s a) (Name ''__ob__'') \<noteq> None
                   then read_ob n E v s else Some (Ok (NotOb Undefined), s)) of
               None \<Rightarrow> None
             | Some (Threw e, s1) \<Rightarrow> Some (Threw e, s1)
             | Some (Ok (IsOb b), s1) \<Rightarrow>
                 Some (Ok (Some (ob_dep b)),
                       if asRootData then count_root a (ob_dep b) s1 else s1)
             | Some (Ok (NotOb x), s1) \<Rightarrow>
                 if shouldObserve s1 \<and> \<not> ssr E \<and>
                    (isArray (heap s1 a) \<or> plain (heap s1 a)) \<and>
                    extensible (heap s1 a) \<and> \<not> isVue (heap s1 a)
                 then (case newObserver_with rec n E a s1 of
                         None \<Rightarrow> None
                       | Some (Threw e, s2) \<Rightarrow> Some (Threw e, s2)
                       | Some (Ok d, s2) \<Rightarrow>
                           Some (Ok (Some d), if asRootData then count_root a d s2 else s2))
                 else Some (Ok None, s1))
      | _ \<Rightarrow> Some (Ok None, s))"

primrec observe :: "nat \<Rightarrow> env \<Rightarrow> observe_fn" where
  "observe 0 E = (\<lambda>v asRootData s. None)"
| "observe (Suc n) E = observe_with (observe n E) n E"

definition defineReactive ::
  "nat \<Rightarrow> env \<Rightarrow> addr \<Rightarrow> key \<Rightarrow> val option \<Rightarrow> nat option \<Rightarrow> bool \<Rightarrow> world \<Rightarrow>
   (unit outcome \<times> world) option" where
  "defineReactive n E = defineReactive_with (observe n E) n E"

text \<open>\<^verbatim>\<open>ob.observeArray(items)\<close> for the arguments of a call.\<close>

definition observeArray :: "nat \<Rightarrow> env \<Rightarrow> val list \<Rightarrow> world \<Rightarrow> (unit outcome \<times> world) option" where
  "observeArray n E items s = observeArray_with (observe n E) (Inr items) [0..<length items] s"

text \<open>The equality rule of \<^verbatim>\<open>reactiveSetter\<close>:
  \<^verbatim>\<open>newVal === value || (newVal !== newVal && value !== value)\<close>.\<close>

definition same_value :: "val \<Rightarrow> val \<Rightarrow> bool" where
  "same_value newVal v =
     (strict_eq newVal v \<or> (\<not> strict_eq newVal newVal \<and> \<not> strict_eq v v))"

text \<open>
  Calling the setter of a property descriptor, and \<^verbatim>\<open>reactiveSetter\<close>. The setter
  that \<^verbatim>\<open>defineReactive\<close> found on the property can be a reactive setter itself.
\<close>

fun call_set :: "nat \<Rightarrow> env \<Rightarrow> sfn \<Rightarrow> addr \<Rightarrow> val \<Rightarrow> world \<Rightarrow> (unit outcome \<times> world) option"
  and reactiveSetter :: "nat \<Rightarrow> env \<Rightarrow> nat \<Rightarrow> val \<Rightarrow> world \<Rightarrow> (unit outcome \<times> world) option"
where
  "call_set n E (UserSet f) a v s = Some (user_set E f a v s)"
| "call_set n E (ReactiveSet c) a v s = reactiveSetter n E c v s"
| "reactiveSetter 0 E c newVal s = None"
| "reactiveSetter (Suc n) E c newVal s =
     (case (case c_getter (cells s c) of
              None \<Rightarrow> Some (Ok (c_val (cells s c)), s)
            | Some g \<Rightarrow> call_get n E g (c_obj (cells s c)) s) of
        None \<Rightarrow> None
      | Some (Threw e, s1) \<Rightarrow> Some (Threw e, s1)
      | Some (Ok v, s1) \<Rightarrow>
          if same_value newVal v then Some (Ok (), s1)
          else
            (case (if \<not> production E
                   then (case c_customSetter (cells s1 c) of
                           Some k \<Rightarrow> customSetter E k s1
                         | None \<Rightarrow> (Ok (), s1))
                   else (Ok (), s1)) of
               (Threw e, s2) \<Rightarrow> Some (Threw e, s2)
             | (Ok u, s2) \<Rightarrow>
                 (case (case c_setter (cells s2 c) of
                          Some f \<Rightarrow> call_set n E f (c_obj (cells s2 c)) newVal s2
                        | None \<Rightarrow> Some (Ok (), upd_cell c (\<lambda>C. C\<lparr>c_val := newVal\<rparr>) s2)) of
                    None \<Rightarrow> None
                  | Some (Threw e, s3) \<Rightarrow> Some (Threw e, s3)
                  | Some (Ok u', s3) \<Rightarrow>
                      (case (if c_shallow (cells s3 c) then Some (Ok None, s3)
                             else observe n E newVal False s3) of
                         None \<Rightarrow> None
                       | Some (Threw e, s4) \<Rightarrow> Some (Threw e, s4)
                       | Some (Ok ch, s4) \<Rightarrow>
                           notify n E (c_dep (cells s4 c))
                             (upd_cell c (\<lambda>C. C\<lparr>childOb := ch\<rparr>) s4)))))"

text \<open>
  \<^verbatim>\<open>target[key] = val\<close> for an object, in strict mode, for a key that is not an index
  of an array (the elements of an array are written by the host's methods, and
  \<^verbatim>\<open>set\<close> splices). The length of an array is the host's; an assignment to
  \<^verbatim>\<open>__ob__\<close> takes the observer out of the slot. Setters and read-only properties
  of the prototype chain are not modelled.
\<close>

definition assign :: "nat \<Rightarrow> env \<Rightarrow> addr \<Rightarrow> key \<Rightarrow> val \<Rightarrow> world \<Rightarrow> (unit outcome \<times> world) option" where
  "assign n E a k v s =
     (let oj = heap s a
      in if isArray oj \<and> k = Name ''length'' then Some (set_length E a v s)
         else if k = Name ''__ob__'' \<and> ob oj \<noteq> None
         then Some (Ok (), upd_obj a (\<lambda>oj. oj\<lparr>ob := None,
                 props := AList.delete k (props oj) @
                   [(k, \<lparr>configurable = True, enumerable = False, slot = Data v\<rparr>)]\<rparr>) s)
         else
           (case map_of (props oj) k of
              Some p \<Rightarrow>
                (case slot p of
                   Data old \<Rightarrow>
                     Some (Ok (), upd_obj a (\<lambda>oj. oj\<lparr>props :=
                       AList.update k (p\<lparr>slot := Data v\<rparr>) (props oj)\<rparr>) s)
                 | Accessor g f \<Rightarrow>
                     (case f of
                        Some f' \<Rightarrow> call_set n E f' a v s
                      | None \<Rightarrow>
                          Some (Threw (TypeError ''Cannot set property which has only a getter''), s)))
            | None \<Rightarrow>
                if extensible oj
                then Some (Ok (), upd_obj a (\<lambda>oj. oj\<lparr>props := props oj @
                       [(k, \<lparr>configurable = True, enumerable = True, slot = Data v\<rparr>)]\<rparr>) s)
                else Some (Threw (TypeError ''Cannot add property, object is not extensible''), s)))"

section \<open>The intercepted array methods: array.js\<close>

text \<open>\<^verbatim>\<open>inserted\<close>: the arguments of \<^verbatim>\<open>push\<close> and \<^verbatim>\<open>unshift\<close>, the
  arguments of \<^verbatim>\<open>splice\<close> from the third on.\<close>

definition inserted :: "array_method \<Rightarrow> val list option" where
  "inserted m =
     (case m of Push xs \<Rightarrow> Some xs | Unshift xs \<Rightarrow> Some xs
              | Splice st dc items \<Rightarrow> Some items | _ \<Rightarrow> None)"

text \<open>
  The \<^verbatim>\<open>mutator\<close> installed for each method, called on the array \<open>a\<close>. When the
  host's method throws, so does the call. On an array whose \<^verbatim>\<open>__ob__\<close> is no
  observer, \<^verbatim>\<open>ob.observeArray(inserted)\<close> or \<^verbatim>\<open>ob.dep.notify()\<close> is the TypeError
  of the source language.
\<close>

definition mutator :: "nat \<Rightarrow> env \<Rightarrow> array_method \<Rightarrow> addr \<Rightarrow> world \<Rightarrow> (ret outcome \<times> world) option" where
  "mutator n E m a s =
     (case native E m a s of
        (Threw e, s1) \<Rightarrow> Some (Threw e, s1)
      | (Ok result, s1) \<Rightarrow>
          (case read_ob n E (Ref a) s1 of
             None \<Rightarrow> None
           | Some (Threw e, s2) \<Rightarrow> Some (Threw e, s2)
           | Some (Ok (NotOb x), s2) \<Rightarrow>
               (case invoke n E x (if inserted m \<noteq> None then [''observeArray'']
                                   else [''dep'', ''notify'']) s2 of
                  None \<Rightarrow> None
                | Some (Threw e, s3) \<Rightarrow> Some (Threw e, s3)
                | Some (Ok u, s3) \<Rightarrow> Some (Ok result, s3))
           | Some (Ok (IsOb b), s2) \<Rightarrow>
               (case (case inserted m of
                        Some xs \<Rightarrow> observeArray n E xs s2
                      | None \<Rightarrow> Some (Ok (), s2)) of
                  None \<Rightarrow> None
                | Some (Threw e, s3) \<Rightarrow> Some (Threw e, s3)
                | Some (Ok u, s3) \<Rightarrow>
                    (case notify n E (ob_dep b) s3 of
                       None \<Rightarrow> None
                     | Some (Threw e, s4) \<Rightarrow> Some (Threw e, s4)
                     | Some (Ok u', s4) \<Rightarrow> Some (Ok result, s4)))))"

definition method_name :: "array_method \<Rightarrow> string" where
  "method_name m =
     (case m of Push xs \<Rightarrow> ''push'' | Pop \<Rightarrow> ''pop'' | Shift \<Rightarrow> ''shift''
              | Unshift xs \<Rightarrow> ''unshift'' | Splice st dc items \<Rightarrow> ''splice''
              | Sort c \<Rightarrow> ''sort'' | Reverse \<Rightarrow> ''reverse'')"

text \<open>
  A method call \<^verbatim>\<open>a.method(...)\<close> on an array: the intercepted method where it has
  been installed, the host's otherwise; an own property of that name that the caller has
  put on the array hides both, and is no function.
\<close>

definition call_method :: "nat \<Rightarrow> env \<Rightarrow> array_method \<Rightarrow> addr \<Rightarrow> world \<Rightarrow> (ret outcome \<times> world) option" where
  "call_method n E m a s =
     (if map_of (props (heap s a)) (Name (method_name m)) \<noteq> None
      then (case invoke n E (Ref a) [method_name m] s of
              None \<Rightarrow> None
            | Some (Threw e, s1) \<Rightarrow> Some (Threw e, s1)
            | Some (Ok u, s1) \<Rightarrow> Some (Ok (Value Undefined), s1))
      else if augmented (heap s a) then mutator n E m a s
      else Some (native E m a s))"

section \<open>set\<close>

definition isValidArrayIndex :: "key \<Rightarrow> bool" where
  "isValidArrayIndex k = (case k of Index i \<Rightarrow> True | Name x \<Rightarrow> False)"

text \<open>
  \<^verbatim>\<open>defineReactive(ob.value, key, val)\<close> for an \<^verbatim>\<open>ob\<close> that is no observer, with
  \<^verbatim>\<open>ob.value\<close> read: on a value that is no object, \<^verbatim>\<open>defineReactive\<close> gets as far
  as the host lets it and ends in the TypeError of the source language.
\<close>

definition defineReactive_on ::
  "nat \<Rightarrow> env \<Rightarrow> val \<Rightarrow> key \<Rightarrow> val \<Rightarrow> world \<Rightarrow> (unit outcome \<times> world) option" where
  "defineReactive_on n E tv k v s =
     (case tv of
        Ref y \<Rightarrow> defineReactive n E y k (Some v) None False s
      | Undefined \<Rightarrow>
          Some (Threw (TypeError ''Cannot convert undefined or null to object''), snd (newDep s))
      | Null \<Rightarrow>
          Some (Threw (TypeError ''Cannot convert undefined or null to object''), snd (newDep s))
      | _ \<Rightarrow>
          (case observe n E v False (snd (newDep s)) of
             None \<Rightarrow> None
           | Some (Threw e, s1) \<Rightarrow> Some (Threw e, s1)
           | Some (Ok ch, s1) \<Rightarrow>
               Some (Threw (TypeError ''Object.defineProperty called on non-object''), s1)))"

text \<open>
  \<^verbatim>\<open>set(target, key, val)\<close>, from \<^verbatim>\<open>const ob = target.__ob__\<close> on, for the
  object \<open>a\<close>. The diagnostics are recorded without the value they print.
\<close>

definition set_add :: "nat \<Rightarrow> env \<Rightarrow> addr \<Rightarrow> key \<Rightarrow> val \<Rightarrow> world \<Rightarrow> (val outcome \<times> world) option" where
  "set_add n E a k v s =
     (case read_ob n E (Ref a) s of
        None \<Rightarrow> None
      | Some (Threw e, s1) \<Rightarrow> Some (Threw e, s1)
      | Some (Ok rd, s1) \<Rightarrow>
          (case (if isVue (heap s1 a) then Some (Ok True, s1)
                 else (case rd of
                         IsOb b \<Rightarrow> Some (Ok (vmCount b \<noteq> 0), s1)
                       | NotOb x \<Rightarrow>
                           if truthy x
                           then (case member n E x ''vmCount'' s1 of
                                   None \<Rightarrow> None
                                 | Some (Threw e, t) \<Rightarrow> Some (Threw e, t)
                                 | Some (Ok c, t) \<Rightarrow> Some (Ok (truthy c), t))
                           else Some (Ok False, s1))) of
             None \<Rightarrow> None
           | Some (Threw e, s2) \<Rightarrow> Some (Threw e, s2)
           | Some (Ok root, s2) \<Rightarrow>
               if root then
                 Some (Ok v,
                   if \<not> production E
                   then emit (Warn (''Avoid adding reactive properties to a Vue instance or its root $data '' @
                                    ''at runtime - declare it upfront in the data option.'')) s2
                   else s2)
               else
                 (case rd of
                    IsOb b \<Rightarrow>
                      (case defineReactive n E a k (Some v) None False s2 of
                         None \<Rightarrow> None
                       | Some (Threw e, s3) \<Rightarrow> Some (Threw e, s3)
                       | Some (Ok u, s3) \<Rightarrow>
                           (case notify n E (ob_dep b) s3 of
                              None \<Rightarrow> None
                            | Some (Threw e, s4) \<Rightarrow> Some (Threw e, s4)
                            | Some (Ok u', s4) \<Rightarrow> Some (Ok v, s4)))
                  | NotOb x \<Rightarrow>
                      if \<not> truthy x then
                        (case assign n E a k v s2 of
                           None \<Rightarrow> None
                         | Some (Threw e, s3) \<Rightarrow> Some (Threw e, s3)
                         | Some (Ok u, s3) \<Rightarrow> Some (Ok v, s3))
                      else
                        (case member n E x ''value'' s2 of
                           None \<Rightarrow> None
                         | Some (Threw e, s3) \<Rightarrow> Some (Threw e, s3)
                         | Some (Ok tv, s3) \<Rightarrow>
                             (case defineReactive_on n E tv k v s3 of
                                None \<Rightarrow> None
                              | Some (Threw e, s4) \<Rightarrow> Some (Threw e, s4)
                              | Some (Ok u, s4) \<Rightarrow>
                                  (case invoke n E x [''dep'', ''notify''] s4 of
                                     None \<Rightarrow> None
                                   | Some (Threw e, s5) \<Rightarrow> Some (Threw e, s5)
                                   | Some (Ok u', s5) \<Rightarrow> Some (Ok v, s5)))))))"

text \<open>
  \<^verbatim>\<open>set(target, key, val)\<close>. A target that is no object makes \<^verbatim>\<open>key in target\<close>
  the TypeError of the source language.
\<close>

definition set_api :: "nat \<Rightarrow> env \<Rightarrow> val \<Rightarrow> key \<Rightarrow> val \<Rightarrow> world \<Rightarrow> (val outcome \<times> world) option" where
  "set_api n E trg k v s =
     (let s0 = (if \<not> production E \<and> \<not> isObject trg
                then emit (Warn
                  ''Cannot set reactive property on undefined, null, or primitive value'') s
                else s)
      in case trg of
           Ref a \<Rightarrow>
             if isArray (heap s0 a) \<and> isValidArrayIndex k then
               (case k of
                  Index i \<Rightarrow>
                    (case set_length E a (Num (int (max (length (elems (heap s0 a))) i))) s0 of
                       (Threw e, s1) \<Rightarrow> Some (Threw e, s1)
                     | (Ok u, s1) \<Rightarrow>
                         (case call_method n E (Splice (Some (int i)) (Some 1) [v]) a s1 of
                            None \<Rightarrow> None
                          | Some (Threw e, s2) \<Rightarrow> Some (Threw e, s2)
                          | Some (Ok r, s2) \<Rightarrow> Some (Ok v, s2)))
                | Name x \<Rightarrow> Some (Ok v, s0))
             else if key_in (heap s0 a) k \<and> k \<notin> object_prototype then
               (case assign n E a k v s0 of
                  None \<Rightarrow> None
                | Some (Threw e, s1) \<Rightarrow> Some (Threw e, s1)
                | Some (Ok u, s1) \<Rightarrow> Some (Ok v, s1))
             else set_add n E a k v s0
         | _ \<Rightarrow> Some (Threw (TypeError ''Cannot use the in operator on a value that is no object''), s0))"


section \<open>The host's arrays\<close>

text \<open>
  The methods of \<^verbatim>\<open>Array.prototype\<close> and the assignment to \<^verbatim>\<open>length\<close> as the
  examples below take them: on an array that is neither frozen nor sealed and stays
  shorter than 2^32 - 1, for a length that is a number. A call that would add an element
  to an array that is not extensible throws, \<^verbatim>\<open>splice\<close> after it has overwritten the
  elements it replaces when it removes up to the end; a length that is no number from 0
  to 2^32 - 1 throws. \<open>sort_with c\<close> is the order in which \<^verbatim>\<open>sort\<close> leaves the
  elements under the comparator \<open>c\<close>.
\<close>

definition array_proto ::
  "(nat \<Rightarrow> val list \<Rightarrow> val list) \<Rightarrow> array_method \<Rightarrow> addr \<Rightarrow> world \<Rightarrow> ret outcome \<times> world" where
  "array_proto sort_with m a s =
     (let es = elems (heap s a);
          put = (\<lambda>xs. upd_obj a (\<lambda>oj. oj\<lparr>elems := xs\<rparr>) s);
          fixed = \<not> extensible (heap s a);
          refuse = Threw (TypeError ''Cannot add property, object is not extensible'')
      in case m of
           Push xs \<Rightarrow>
             if fixed \<and> xs \<noteq> [] then (refuse, s)
             else (Ok (Value (Num (int (length es + length xs)))), put (es @ xs))
         | Pop \<Rightarrow>
             if es = [] then (Ok (Value Undefined), s)
             else (Ok (Value (last es)), put (butlast es))
         | Shift \<Rightarrow>
             if es = [] then (Ok (Value Undefined), s)
             else (Ok (Value (hd es)), put (tl es))
         | Unshift xs \<Rightarrow>
             if fixed \<and> xs \<noteq> [] then (refuse, s)
             else (Ok (Value (Num (int (length es + length xs)))), put (xs @ es))
         | Splice st dc items \<Rightarrow>
             (let len = int (length es);
                  rel = (case st of None \<Rightarrow> 0 | Some x \<Rightarrow> x);
                  start = (if rel < 0 then max (len + rel) 0 else min rel len);
                  del = (case st of
                           None \<Rightarrow> 0
                         | Some x \<Rightarrow> (case dc of
                                        None \<Rightarrow> len - start
                                      | Some d \<Rightarrow> min (max d 0) (len - start)));
                  removed = take (nat del) (drop (nat start) es);
                  rest = drop (nat start + nat del) es
              in if fixed \<and> nat del < length items
                 then (refuse, if rest = [] then put (take (nat start) es @ take (nat del) items)
                               else s)
                 else (Ok (NewArray removed), put (take (nat start) es @ items @ rest)))
         | Sort c \<Rightarrow> (Ok (Value (Ref a)), put (sort_with c es))
         | Reverse \<Rightarrow> (Ok (Value (Ref a)), put (rev es)))"

definition array_set_length :: "addr \<Rightarrow> val \<Rightarrow> world \<Rightarrow> unit outcome \<times> world" where
  "array_set_length a v s =
     (case v of
        Num m \<Rightarrow>
          if 0 \<le> m \<and> m \<le> 4294967295
          then (Ok (), upd_obj a (\<lambda>oj. oj\<lparr>elems :=
                  take (nat m) (elems oj) @ replicate (nat m - length (elems oj)) Undefined\<rparr>) s)
          else (Threw (RangeError ''Invalid array length''), s)
      | _ \<Rightarrow> (Threw (RangeError ''Invalid array length''), s))"

section \<open>What the log records\<close>

text \<open>The watchers that the flush loop has run, in the order of their runs; the
  diagnostics that \<^verbatim>\<open>warn\<close> has been given; how often \<^verbatim>\<open>notify\<close> of the Subject
  \<open>d\<close> has been entered.\<close>

definition runs :: "world \<Rightarrow> wid list" where
  "runs s = concat (map (\<lambda>e. case e of RunWatcher w \<Rightarrow> [w] | _ \<Rightarrow> []) (log s))"

definition warnings :: "world \<Rightarrow> string list" where
  "warnings s = concat (map (\<lambda>e. case e of Warn m \<Rightarrow> [m] | _ \<Rightarrow> []) (log s))"

definition notified :: "dep_id \<Rightarrow> world \<Rightarrow> nat" where
  "notified d s = count_list (log s) (Notify d)"


section \<open>Enqueueing during a flush\<close>

text \<open>The part of the queue behind the cursor: the watchers still to be run.\<close>

definition pending :: "world \<Rightarrow> wid list" where
  "pending s = drop (Suc (index s)) (queue s)"

text \<open>
  The state of the scheduler while the watcher at the cursor is being handled: the
  pending part is strictly ascending, and the presence map marks exactly the pending
  watchers, together with the watcher at the cursor as long as its marker has not been
  cleared (\<open>cur\<close>: during its \<^verbatim>\<open>before\<close> hook).
\<close>

definition sched_inv :: "bool \<Rightarrow> world \<Rightarrow> bool" where
  "sched_inv cur s =
     (flushing s \<and> index s < length (queue s) \<and>
      sorted (pending s) \<and> distinct (pending s) \<and>
      (\<forall>w. has s w = (w \<in> set (pending s) \<or> (cur \<and> w = queue s ! index s))) \<and>
      (cur \<longrightarrow> queue s ! index s \<notin> set (pending s)))"

declare splice_scan.simps [simp del]

lemma splice_scan_step:
  "i > int idx \<Longrightarrow> q ! nat i > w \<Longrightarrow> splice_scan q idx w i = splice_scan q idx w (i - 1)"
  by (simp add: splice_scan.simps [of q idx w i])

lemma splice_scan_stop:
  "\<not> (i > int idx \<and> q ! nat i > w) \<Longrightarrow> splice_scan q idx w i = i"
  by (auto simp: splice_scan.simps [of q idx w i])

lemma splice_scan_bounds:
  "int idx \<le> i0 \<Longrightarrow> int idx \<le> splice_scan q idx w i0 \<and> splice_scan q idx w i0 \<le> i0"
proof (induction q idx w i0 rule: splice_scan.induct)
  case (1 q idx w i)
  show ?case
  proof (cases "i > int idx \<and> q ! nat i > w")
    case True
    then have "int idx \<le> i - 1" by simp
    from "1.IH" [OF True this] True show ?thesis
      by (simp add: splice_scan_step)
  next
    case False
    with "1.prems" show ?thesis
      by (simp add: splice_scan_stop)
  qed
qed

lemma splice_scan_above:
  "int idx \<le> i0 \<Longrightarrow> splice_scan q idx w i0 < j \<Longrightarrow> j \<le> i0 \<Longrightarrow> q ! nat j > w"
proof (induction q idx w i0 rule: splice_scan.induct)
  case (1 q idx w i)
  show ?case
  proof (cases "i > int idx \<and> q ! nat i > w")
    case True
    then have le: "int idx \<le> i - 1" by simp
    have eq: "splice_scan q idx w i = splice_scan q idx w (i - 1)"
      using True by (simp add: splice_scan_step)
    show ?thesis
    proof (cases "j = i")
      case True
      with \<open>i > int idx \<and> q ! nat i > w\<close> show ?thesis by simp
    next
      case False
      with "1.prems" have "j \<le> i - 1" by simp
      from "1.IH" [OF True le _ this] "1.prems" eq show ?thesis by simp
    qed
  next
    case False
    then have "splice_scan q idx w i = i"
      by (rule splice_scan_stop)
    with "1.prems" show ?thesis by simp
  qed
qed

lemma splice_scan_at:
  "int idx \<le> i0 \<Longrightarrow> int idx < splice_scan q idx w i0 \<Longrightarrow>
   q ! nat (splice_scan q idx w i0) \<le> w"
proof (induction q idx w i0 rule: splice_scan.induct)
  case (1 q idx w i)
  show ?case
  proof (cases "i > int idx \<and> q ! nat i > w")
    case True
    then have le: "int idx \<le> i - 1" by simp
    have eq: "splice_scan q idx w i = splice_scan q idx w (i - 1)"
      using True by (simp add: splice_scan_step)
    from "1.IH" [OF True le] "1.prems" eq show ?thesis by simp
  next
    case False
    then have "splice_scan q idx w i = i"
      by (rule splice_scan_stop)
    with "1.prems" False show ?thesis by auto
  qed
qed

text \<open>The position at which an enqueue during a flush splices the watcher in.\<close>

definition splice_pos :: "wid list \<Rightarrow> nat \<Rightarrow> wid \<Rightarrow> nat" where
  "splice_pos q idx w = nat (splice_scan q idx w (int (length q) - 1) + 1)"

lemma splice_pos_props:
  assumes "idx < length q"
  shows "idx < splice_pos q idx w" and "splice_pos q idx w \<le> length q"
    and "\<forall>j. splice_pos q idx w \<le> j \<and> j < length q \<longrightarrow> w < q ! j"
    and "Suc idx < splice_pos q idx w \<longrightarrow> q ! (splice_pos q idx w - 1) \<le> w"
proof -
  let ?i = "splice_scan q idx w (int (length q) - 1)"
  have le: "int idx \<le> int (length q) - 1" using assms by simp
  have b: "int idx \<le> ?i" "?i \<le> int (length q) - 1"
    using splice_scan_bounds [OF le, of q w] by simp_all
  show "idx < splice_pos q idx w" using b by (simp add: splice_pos_def)
  show "splice_pos q idx w \<le> length q" using b by (simp add: splice_pos_def)
  show "\<forall>j. splice_pos q idx w \<le> j \<and> j < length q \<longrightarrow> w < q ! j"
  proof (intro allI impI)
    fix j assume j: "splice_pos q idx w \<le> j \<and> j < length q"
    then have "?i < int j" "int j \<le> int (length q) - 1"
      using b unfolding splice_pos_def by linarith+
    from splice_scan_above [OF le this] show "w < q ! j" by simp
  qed
  show "Suc idx < splice_pos q idx w \<longrightarrow> q ! (splice_pos q idx w - 1) \<le> w"
  proof
    assume "Suc idx < splice_pos q idx w"
    then have gt: "int idx < ?i" using b by (simp add: splice_pos_def)
    have "splice_pos q idx w - 1 = nat ?i"
      using b by (simp add: splice_pos_def)
    with splice_scan_at [OF le gt] show "q ! (splice_pos q idx w - 1) \<le> w" by simp
  qed
qed

lemma sorted_splice:
  assumes "sorted P" and "k \<le> length P"
    and above: "\<forall>j. k \<le> j \<and> j < length P \<longrightarrow> w < P ! j"
    and below: "0 < k \<longrightarrow> P ! (k - 1) \<le> w"
  shows "sorted (take k P @ w # drop k P)"
proof -
  have lo: "x \<le> w" if "x \<in> set (take k P)" for x
  proof -
    from that obtain j where j: "j < k" "j < length P" "x = P ! j"
      by (auto simp: in_set_conv_nth)
    then have "P ! j \<le> P ! (k - 1)"
      using assms(1,2) by (intro sorted_nth_mono) auto
    with below j show ?thesis by auto
  qed
  have hi: "w < y" if "y \<in> set (drop k P)" for y
  proof -
    from that obtain j where "j < length P - k" "y = P ! (k + j)"
      using assms(2) by (auto simp: in_set_conv_nth)
    with above show ?thesis by simp
  qed
  have "sorted (take k P)" "sorted (drop k P)"
    using assms(1) by simp_all
  then show ?thesis
    using lo hi by (fastforce simp: sorted_append dest: in_set_takeD in_set_dropD)
qed

lemma splice_in_pending:
  assumes idx: "idx < length q" and srt: "sorted (drop (Suc idx) q)"
  shows "take (Suc idx) (splice_in (splice_pos q idx w) w q) = take (Suc idx) q"
    and "sorted (drop (Suc idx) (splice_in (splice_pos q idx w) w q))"
    and "set (drop (Suc idx) (splice_in (splice_pos q idx w) w q)) =
           insert w (set (drop (Suc idx) q))"
    and "w \<notin> set (drop (Suc idx) q) \<Longrightarrow> distinct (drop (Suc idx) q) \<Longrightarrow>
           distinct (drop (Suc idx) (splice_in (splice_pos q idx w) w q))"
    and "splice_in (splice_pos q idx w) w q ! idx = q ! idx"
    and "idx < length (splice_in (splice_pos q idx w) w q)"
proof -
  let ?p = "splice_pos q idx w"
  let ?P = "drop (Suc idx) q"
  let ?k = "?p - Suc idx"
  note pp = splice_pos_props [OF idx, of w]
  have p: "Suc idx \<le> ?p" "?p \<le> length q" using pp(1,2) by simp_all
  have dr: "drop (Suc idx) (splice_in ?p w q) = take ?k ?P @ w # drop ?k ?P"
    using p by (simp add: splice_in_def drop_take min_def)
  show "take (Suc idx) (splice_in ?p w q) = take (Suc idx) q"
    using p by (simp add: splice_in_def min_def)
  have above: "\<forall>j. ?k \<le> j \<and> j < length ?P \<longrightarrow> w < ?P ! j"
  proof (intro allI impI)
    fix j assume "?k \<le> j \<and> j < length ?P"
    then have "?p \<le> Suc idx + j \<and> Suc idx + j < length q" using p by auto
    with pp(3) have "w < q ! (Suc idx + j)" by blast
    then show "w < ?P ! j" using idx by simp
  qed
  have below: "0 < ?k \<longrightarrow> ?P ! (?k - 1) \<le> w"
  proof
    assume k: "0 < ?k"
    then have "Suc idx < ?p" by simp
    with pp(4) have "q ! (?p - 1) \<le> w" by blast
    moreover have "Suc idx + (?k - 1) = ?p - 1" using k by simp
    ultimately show "?P ! (?k - 1) \<le> w" using p k by simp
  qed
  have kl: "?k \<le> length ?P" using p by simp
  show "sorted (drop (Suc idx) (splice_in ?p w q))"
    unfolding dr by (rule sorted_splice [OF srt kl above below])
  have st: "set (take ?k ?P) \<union> set (drop ?k ?P) = set ?P"
    by (metis append_take_drop_id set_append)
  show "set (drop (Suc idx) (splice_in ?p w q)) = insert w (set ?P)"
    unfolding dr using st by auto
  show "distinct (drop (Suc idx) (splice_in ?p w q))"
    if "w \<notin> set ?P" "distinct ?P"
  proof -
    have "distinct (take ?k ?P @ drop ?k ?P)"
      using that(2) by (simp only: append_take_drop_id)
    then have "distinct (take ?k ?P)" "distinct (drop ?k ?P)"
      "set (take ?k ?P) \<inter> set (drop ?k ?P) = {}"
      by (simp_all only: distinct_append)
    moreover have "w \<notin> set (take ?k ?P)" "w \<notin> set (drop ?k ?P)"
      using that(1) st by blast+
    ultimately show ?thesis
      unfolding dr by (simp only: distinct_append distinct.simps set_simps) blast
  qed
  show "splice_in ?p w q ! idx = q ! idx"
    using p idx by (simp add: splice_in_def nth_append)
  show "idx < length (splice_in ?p w q)"
    using idx by (simp add: splice_in_def)
qed

lemma queueWatcher_marked: "has s w \<Longrightarrow> queueWatcher w s = s"
  by (simp add: queueWatcher_def)


lemma queueWatcher_flushing:
  "\<not> has s w \<Longrightarrow> flushing s \<Longrightarrow>
   queue (queueWatcher w s) = splice_in (splice_pos (queue s) (index s) w) w (queue s) \<and>
   has (queueWatcher w s) = (has s)(w := True)"
  by (simp add: queueWatcher_def Let_def emit_def splice_pos_def)

lemma queueWatcher_frame:
  "index (queueWatcher w s) = index s \<and> flushing (queueWatcher w s) = flushing s \<and>
   circular (queueWatcher w s) = circular s \<and> watchers (queueWatcher w s) = watchers s \<and>
   subs (queueWatcher w s) = subs s \<and> target (queueWatcher w s) = target s"
  by (simp add: queueWatcher_def Let_def emit_def)

lemma queueWatcher_sched_inv:
  assumes "sched_inv cur s"
  shows "sched_inv cur (queueWatcher w s)"
proof (cases "has s w")
  case True
  with assms show ?thesis by (simp add: queueWatcher_marked)
next
  case False
  from assms have fl: "flushing s" and idx: "index s < length (queue s)"
    and srt: "sorted (drop (Suc (index s)) (queue s))"
    and dst: "distinct (drop (Suc (index s)) (queue s))"
    and hs: "\<forall>x. has s x = (x \<in> set (drop (Suc (index s)) (queue s)) \<or>
               (cur \<and> x = queue s ! index s))"
    and cu: "cur \<longrightarrow> queue s ! index s \<notin> set (drop (Suc (index s)) (queue s))"
    by (simp_all add: sched_inv_def pending_def)
  from False hs have nin: "w \<notin> set (drop (Suc (index s)) (queue s))"
    and ncur: "cur \<longrightarrow> w \<noteq> queue s ! index s" by auto
  note sp = splice_in_pending [OF idx srt, of w]
  note qw = queueWatcher_flushing [OF False fl] queueWatcher_frame [of w s]
  show ?thesis
    unfolding sched_inv_def pending_def
    using qw fl sp(1,2,3,5,6) sp(4) [OF nin dst] hs cu ncur
    by auto
qed

text \<open>
  Watchers whose getter returns \<open>v\<close> and whose callback writes a property that watcher
  \<open>nxt w\<close> depends on: the write's notification reaches \<^verbatim>\<open>update\<close> of that
  watcher, which enqueues it. With an object for \<open>v\<close> every evaluation counts as a
  change and calls the callback.
\<close>

definition requeue_env :: "val \<Rightarrow> (wid \<Rightarrow> wid) \<Rightarrow> bool \<Rightarrow> env" where
  "requeue_env v nxt pr =
     \<lparr>getter = (\<lambda>w s. (Ok v, s)),
      cb = (\<lambda>w x old s. (Ok (), queueWatcher (nxt w) s)),
      before = (\<lambda>w s. (Ok (), s)),
      traverse = (\<lambda>x s. (Ok (), s)),
      production = pr,
      mounted_render = (\<lambda>w s. False),
      devtools = False,
      user_get = (\<lambda>g a s. (Ok Undefined, s)),
      user_set = (\<lambda>g a x s. (Ok (), s)),
      customSetter = (\<lambda>c s. (Ok (), s)),
      native = array_proto (\<lambda>c xs. xs),
      set_length = array_set_length,
      ssr = False\<rparr>"







section \<open>Computed watchers\<close>

text \<open>
  Subscribers that are neither computed nor synchronous are enqueued, in subscription
  order, and one unit of fuel is enough.
\<close>

lemma notify_loop_plain:
  "\<forall>w \<in> set ws. \<not> computed (watchers s w) \<and> \<not> sync (watchers s w) \<Longrightarrow>
   notify_loop n E ws s = Some (Ok (), fold queueWatcher ws s)"
proof (induction ws arbitrary: s)
  case Nil
  then show ?case by simp
next
  case (Cons a ws)
  have "watchers (queueWatcher a s) = watchers s"
    using queueWatcher_frame [of a s] by simp
  with Cons.prems have
    "\<forall>w \<in> set ws. \<not> computed (watchers (queueWatcher a s) w) \<and>
       \<not> sync (watchers (queueWatcher a s) w)" by simp
  from Cons.IH [OF this] Cons.prems show ?case by simp
qed

lemma notify_plain:
  "\<forall>w \<in> set (subs s d). \<not> computed (watchers s w) \<and> \<not> sync (watchers s w) \<Longrightarrow>
   notify (Suc n) E d s = Some (Ok (), fold queueWatcher (subs s d) (emit (Notify d) s))"
  by (simp add: notify_loop_plain emit_def)

text \<open>
  C1 (amended). When a Subject that a computed watcher depends on notifies it: with no
  subscriber on its own Subject the watcher only sets its dirty flag (nothing is
  evaluated; the next \<^verbatim>\<open>evaluate\<close> of the dirty watcher runs \<^verbatim>\<open>get\<close> and caches
  the value, a clean watcher returns the cached value); with a subscriber it runs
  \<^verbatim>\<open>get\<close> at once and, if that returns, notifies its own Subject exactly when the
  new value is not strictly equal to the cached one, or is an object or array, or the
  watcher is deep; otherwise nothing happens beyond the evaluation. (For a user-flavored
  watcher a failure of the notification is reported instead of thrown.)
\<close>

theorem computed_update:
  assumes "computed (watchers s w)" and "dep (watchers s w) = Some d"
  shows
   "(subs s d = [] \<longrightarrow>
       update n E w s = Some (Ok (), upd_watcher w (\<lambda>W. W\<lparr>dirty := True\<rparr>) s)) \<and>
    (subs s d \<noteq> [] \<longrightarrow>
       (case get E w s of
          (Threw e, s1) \<Rightarrow> update n E w s = Some (Threw e, s1)
        | (Ok v, s1) \<Rightarrow>
            if \<not> strict_eq v (cached (watchers s1 w)) \<or> isObject v \<or> deep (watchers s1 w)
            then (let s2 = upd_watcher w (\<lambda>W. W\<lparr>cached := v, dirty := False\<rparr>) s1
                  in if user (watchers s2 w)
                     then update n E w s =
                       (case notify n E d s2 of
                          None \<Rightarrow> None
                        | Some (Threw e, s3) \<Rightarrow>
                            Some (Ok (), handleError e
                              (''callback for watcher '' @ quoted (expression (watchers s3 w))) s3)
                        | Some (Ok u, s3) \<Rightarrow> Some (Ok (), s3))
                     else update n E w s = notify n E d s2)
            else update n E w s = Some (Ok (), s1))) \<and>
    (dirty (watchers s w) \<longrightarrow>
       evaluate E w s =
         (case get E w s of
            (Threw e, s1) \<Rightarrow> (Threw e, s1)
          | (Ok v, s1) \<Rightarrow> (Ok v, upd_watcher w (\<lambda>W. W\<lparr>cached := v, dirty := False\<rparr>) s1))) \<and>
    (\<not> dirty (watchers s w) \<longrightarrow> evaluate E w s = (Ok (cached (watchers s w)), s))"
  using assms
  by (auto simp: getAndInvoke_def evaluate_def Let_def split: prod.splits outcome.splits)

text \<open>Watchers whose getter returns the value \<open>v\<close> and whose callback does nothing.\<close>

definition const_env :: "val \<Rightarrow> env" where
  "const_env v =
     \<lparr>getter = (\<lambda>w s. (Ok v, s)),
      cb = (\<lambda>w x old s. (Ok (), s)),
      before = (\<lambda>w s. (Ok (), s)),
      traverse = (\<lambda>x s. (Ok (), s)),
      production = False,
      mounted_render = (\<lambda>w s. False),
      devtools = False,
      user_get = (\<lambda>g a s. (Ok Undefined, s)),
      user_set = (\<lambda>g a x s. (Ok (), s)),
      customSetter = (\<lambda>c s. (Ok (), s)),
      native = array_proto (\<lambda>c xs. xs),
      set_length = array_set_length,
      ssr = False\<rparr>"

text \<open>
  Watcher 3 is computed, with the Subject 5 of its own and the cached value \<open>v\<close>;
  \<open>listeners\<close> are the subscribers of Subject 5.
\<close>

definition computed_example :: "val \<Rightarrow> wid list \<Rightarrow> world" where
  "computed_example v listeners =
     world0\<lparr>watchers := (watchers world0)
                (3 := (watchers world0 3)\<lparr>computed := True, dep := Some 5, cached := v\<rparr>),
            subs := (subs world0)(5 := listeners), dep_uid := 6\<rparr>"

lemma computed_example_simps:
  "computed (watchers (computed_example v ls) 3)"
  "dep (watchers (computed_example v ls) 3) = Some 5"
  "subs (computed_example v ls) 5 = ls"
  "\<not> dirty (watchers (computed_example v ls) 3)"
  "cached (watchers (computed_example v ls) 3) = v"
  "\<not> user (watchers (computed_example v ls) 3)"
  "\<not> deep (watchers (computed_example v ls) 3)"
  by (simp_all add: computed_example_def world0_def)

lemma get_const_env:
  "get (const_env v) 3 (computed_example x ls) = (Ok v, computed_example x ls)"
  by (simp add: get_def const_env_def computed_example_def world0_def pushTarget_def
      popTarget_def cleanupDeps_def upd_watcher_def Let_def)

theorem computed_update_witness:
  "computed (watchers (computed_example (Num 1) []) 3) \<and>
   dep (watchers (computed_example (Num 1) []) 3) = Some 5 \<and>
   subs (computed_example (Num 1) []) 5 = [] \<and>
   update (Suc 0) (const_env (Num 2)) 3 (computed_example (Num 1) []) =
     Some (Ok (), upd_watcher 3 (\<lambda>W. W\<lparr>dirty := True\<rparr>) (computed_example (Num 1) [])) \<and>
   subs (computed_example (Num 1) [4]) 5 \<noteq> [] \<and>
   update (Suc 0) (const_env (Num 1)) 3 (computed_example (Num 1) [4]) =
     Some (Ok (), computed_example (Num 1) [4]) \<and>
   update (Suc 0) (const_env (Num 2)) 3 (computed_example (Num 1) [4]) =
     notify (Suc 0) (const_env (Num 2)) 5
       (upd_watcher 3 (\<lambda>W. W\<lparr>cached := Num 2, dirty := False\<rparr>) (computed_example (Num 1) [4])) \<and>
   evaluate (const_env (Num 2)) 3 (computed_example (Num 1) [4]) =
     (Ok (Num 1), computed_example (Num 1) [4])"
  using computed_update [OF computed_example_simps(1,2), of "Num 1" "[]" "Suc 0" "const_env (Num 2)"]
    computed_update [OF computed_example_simps(1,2), of "Num 1" "[4]" "Suc 0" "const_env (Num 1)"]
    computed_update [OF computed_example_simps(1,2), of "Num 1" "[4]" "Suc 0" "const_env (Num 2)"]
    computed_example_simps [of "Num 1" "[]"] computed_example_simps [of "Num 1" "[4]"]
  by (simp add: get_const_env strict_eq_def isObject_def upd_watcher_def
      del: update.simps notify.simps)

text \<open>
  C1 as stated fails: the rule is not the one of the property setters. A computed
  watcher whose getter returns the object it has cached, identical by the setter's rule,
  notifies its Subject: watcher 4 is enqueued.
\<close>

lemma update_same_object:
  "update (Suc 0) (const_env (Ref 7)) 3 (computed_example (Ref 7) [4]) =
   notify (Suc 0) (const_env (Ref 7)) 5
     (upd_watcher 3 (\<lambda>W. W\<lparr>cached := Ref 7, dirty := False\<rparr>) (computed_example (Ref 7) [4]))"
  by (simp add: getAndInvoke_def get_const_env computed_example_simps isObject_def
      upd_watcher_def Let_def)

theorem computed_update_same_object_notifies:
  "same_value (Ref 7) (cached (watchers (computed_example (Ref 7) [4]) 3)) \<and>
   map_option (\<lambda>r. (fst r, log (snd r), queue (snd r)))
     (update (Suc 0) (const_env (Ref 7)) 3 (computed_example (Ref 7) [4])) =
   Some (Ok (), [Notify 5, NextTick], [4])"
  unfolding update_same_object
  by (simp add: same_value_def strict_eq_def computed_example_def world0_def
      upd_watcher_def emit_def queueWatcher_def Let_def)

section \<open>Failures of getters and callbacks\<close>

lemma cleanupDeps_frame:
  "target (cleanupDeps w s) = target s \<and> targetStack (cleanupDeps w s) = targetStack s \<and>
   log (cleanupDeps w s) = log s \<and> queue (cleanupDeps w s) = queue s \<and>
   has (cleanupDeps w s) = has s \<and> index (cleanupDeps w s) = index s \<and>
   flushing (cleanupDeps w s) = flushing s \<and> circular (cleanupDeps w s) = circular s \<and>
   waiting (cleanupDeps w s) = waiting s"
proof -
  have "target (cleanup_loop w ds s) = target s \<and>
        targetStack (cleanup_loop w ds s) = targetStack s \<and>
        log (cleanup_loop w ds s) = log s \<and> queue (cleanup_loop w ds s) = queue s \<and>
        has (cleanup_loop w ds s) = has s \<and> index (cleanup_loop w ds s) = index s \<and>
        flushing (cleanup_loop w ds s) = flushing s \<and>
        circular (cleanup_loop w ds s) = circular s \<and>
        waiting (cleanup_loop w ds s) = waiting s" for ds
    by (induction ds arbitrary: s) (simp_all add: removeSub_def)
  then show ?thesis
    by (simp add: cleanupDeps_def upd_watcher_def Let_def)
qed

lemma cleanupDeps_flags:
  "user (watchers (cleanupDeps w s) x) = user (watchers s x) \<and>
   deep (watchers (cleanupDeps w s) x) = deep (watchers s x) \<and>
   active (watchers (cleanupDeps w s) x) = active (watchers s x) \<and>
   computed (watchers (cleanupDeps w s) x) = computed (watchers s x) \<and>
   sync (watchers (cleanupDeps w s) x) = sync (watchers s x) \<and>
   has_before (watchers (cleanupDeps w s) x) = has_before (watchers s x) \<and>
   expression (watchers (cleanupDeps w s) x) = expression (watchers s x) \<and>
   cached (watchers (cleanupDeps w s) x) = cached (watchers s x) \<and>
   dirty (watchers (cleanupDeps w s) x) = dirty (watchers s x) \<and>
   dep (watchers (cleanupDeps w s) x) = dep (watchers s x)"
  by (simp add: cleanupDeps_watchers)

text \<open>
  The state in which the \<^verbatim>\<open>finally\<close> block of \<^verbatim>\<open>get\<close> starts, with the value
  that \<^verbatim>\<open>get\<close> is about to return or the exception it is about to throw on.
\<close>

definition guarded :: "env \<Rightarrow> wid \<Rightarrow> world \<Rightarrow> val outcome \<times> world" where
  "guarded E w s =
     (case getter E w (pushTarget (Some w) s) of
        (Ok v, s2) \<Rightarrow> (Ok v, s2)
      | (Threw e, s2) \<Rightarrow>
          if user (watchers s2 w)
          then (Ok Undefined,
                handleError e (''getter for watcher '' @ quoted (expression (watchers s2 w))) s2)
          else (Threw e, s2))"

text \<open>The traversal that \<^verbatim>\<open>get\<close> runs in its \<^verbatim>\<open>finally\<close> block, if the watcher is
  deep.\<close>

definition traversal :: "env \<Rightarrow> wid \<Rightarrow> world \<Rightarrow> unit outcome \<times> world" where
  "traversal E w s =
     (case guarded E w s of
        (res, s3) \<Rightarrow>
          if deep (watchers s3 w)
          then traverse E (case res of Ok v \<Rightarrow> v | Threw e \<Rightarrow> Undefined) s3
          else (Ok (), s3))"

lemma get_cases:
  "get E w s =
     (case traversal E w s of
        (Threw e', s4) \<Rightarrow> (Threw e', s4)
      | (Ok u, s4) \<Rightarrow> (fst (guarded E w s), cleanupDeps w (popTarget s4)))"
  by (simp add: get_def guarded_def traversal_def Let_def split: prod.splits outcome.splits)

text \<open>
  The caller's code leaves the flavor of watcher \<open>w\<close> and the stack of active
  watchers as it found them, and the traversal of the values of \<open>w\<close> returns.
\<close>

definition keeps_flavor :: "env \<Rightarrow> wid \<Rightarrow> bool" where
  "keeps_flavor E w =
     (\<forall>s. user (watchers (snd (getter E w s)) w) = user (watchers s w) \<and>
          (\<forall>v. user (watchers (snd (traverse E v s)) w) = user (watchers s w) \<and>
               fst (traverse E v s) = Ok ()))"

definition keeps_stack :: "env \<Rightarrow> wid \<Rightarrow> bool" where
  "keeps_stack E w =
     (\<forall>s. target (snd (getter E w s)) = target s \<and>
          targetStack (snd (getter E w s)) = targetStack s \<and>
          (\<forall>v. target (snd (traverse E v s)) = target s \<and>
               targetStack (snd (traverse E v s)) = targetStack s))"

lemma get_reconciled:
  assumes "fst (traversal E w s) = Ok ()"
  shows "newDepIds (watchers (snd (get E w s)) w) = {} \<and>
         newDeps (watchers (snd (get E w s)) w) = []"
proof -
  obtain s4 where "traversal E w s = (Ok (), s4)"
    using assms by (cases "traversal E w s") auto
  then show ?thesis
    by (simp add: get_cases cleanupDeps_watchers)
qed

text \<open>
  When the traversal returns, \<^verbatim>\<open>get\<close> leaves the active watcher and the stack as
  \<^verbatim>\<open>popTarget\<close> leaves them after the matching \<^verbatim>\<open>pushTarget\<close>: as they were, if
  there was an active watcher or the stack was empty.
\<close>

lemma get_restores_stack:
  assumes "keeps_stack E w" and "fst (traversal E w s) = Ok ()"
  shows "target (snd (get E w s)) = target (popTarget (pushTarget (Some w) s))"
    and "targetStack (snd (get E w s)) = targetStack (popTarget (pushTarget (Some w) s))"
    and "target s = None \<longrightarrow> targetStack s = [] \<Longrightarrow>
         target (snd (get E w s)) = target s \<and> targetStack (snd (get E w s)) = targetStack s"
proof -
  let ?s1 = "pushTarget (Some w) s"
  obtain r s2 where g: "getter E w ?s1 = (r, s2)" by (cases "getter E w ?s1")
  have k2: "target s2 = target ?s1 \<and> targetStack s2 = targetStack ?s1"
    using assms(1) g by (metis keeps_stack_def snd_conv)
  obtain res s3 where gd: "guarded E w s = (res, s3)" by (cases "guarded E w s")
  have k3: "target s3 = target ?s1 \<and> targetStack s3 = targetStack ?s1"
    using gd g k2
    by (cases r) (auto simp: guarded_def handleError_def emit_def split: if_splits)
  obtain s4 where t: "traversal E w s = (Ok (), s4)"
    using assms(2) by (cases "traversal E w s") auto
  have k4: "target s4 = target ?s1 \<and> targetStack s4 = targetStack ?s1"
  proof (cases "deep (watchers s3 w)")
    case True
    with t gd have "s4 = snd (traverse E (case res of Ok v \<Rightarrow> v | Threw e \<Rightarrow> Undefined) s3)"
      by (simp add: traversal_def)
    with assms(1) k3 show ?thesis by (simp add: keeps_stack_def)
  next
    case False
    with t gd k3 show ?thesis by (simp add: traversal_def)
  qed
  have e: "snd (get E w s) = cleanupDeps w (popTarget s4)"
    using t by (simp add: get_cases)
  have p: "target (popTarget s4) = target (popTarget ?s1) \<and>
           targetStack (popTarget s4) = targetStack (popTarget ?s1)"
    using k4 by (simp add: popTarget_def)
  show a: "target (snd (get E w s)) = target (popTarget ?s1)"
    and b: "targetStack (snd (get E w s)) = targetStack (popTarget ?s1)"
    using e p cleanupDeps_frame [of w "popTarget s4"] by simp_all
  show "target (snd (get E w s)) = target s \<and> targetStack (snd (get E w s)) = targetStack s"
    if "target s = None \<longrightarrow> targetStack s = []"
  proof (cases "target s")
    case None
    with that have "popTarget ?s1 = s" by (simp add: pushTarget_popTarget_idle)
    with a b show ?thesis by simp
  next
    case (Some t)
    then have "popTarget ?s1 = s" by (simp add: pushTarget_popTarget_active)
    with a b show ?thesis by simp
  qed
qed

lemma get_user_Ok:
  assumes "keeps_flavor E w" and "user (watchers s w)"
  shows "\<exists>v. fst (get E w s) = Ok v" and "user (watchers (snd (get E w s)) w)"
proof -
  obtain r s2 where g: "getter E w (pushTarget (Some w) s) = (r, s2)"
    by (cases "getter E w (pushTarget (Some w) s)")
  have u1: "user (watchers (pushTarget (Some w) s) w)"
    using assms(2) by (simp add: pushTarget_def Let_def split: option.splits)
  have u2: "user (watchers s2 w)"
    using assms(1) u1 g by (metis keeps_flavor_def snd_conv)
  obtain res s3 where gd: "guarded E w s = (res, s3)" by (cases "guarded E w s")
  have u3: "user (watchers s3 w) \<and> (\<exists>v. res = Ok v)"
    using gd g u2 by (cases r) (auto simp: guarded_def handleError_def emit_def)
  have tr: "user (watchers (snd (traverse E v t)) w) = user (watchers t w) \<and>
            fst (traverse E v t) = Ok ()" for v t
    using assms(1) by (simp add: keeps_flavor_def)
  obtain rt s4 where t: "traversal E w s = (rt, s4)" by (cases "traversal E w s")
  have u4: "rt = Ok () \<and> user (watchers s4 w)"
    using t gd u3 tr [of "case res of Ok v \<Rightarrow> v | Threw e \<Rightarrow> Undefined" s3]
    by (auto simp: traversal_def split: if_splits prod.splits)
  show "\<exists>v. fst (get E w s) = Ok v"
    using t gd u3 u4 by (simp add: get_cases)
  show "user (watchers (snd (get E w s)) w)"
    using t u4 by (simp add: get_cases cleanupDeps_flags popTarget_def)
qed

lemma run_user_Ok:
  assumes "keeps_flavor E w" and "user (watchers s w)"
  shows "\<exists>s'. run E w s = Some (Ok (), s')"
proof (cases "active (watchers s w)")
  case False
  then show ?thesis by (simp add: run_def)
next
  case True
  obtain v where v: "fst (get E w s) = Ok v"
    using get_user_Ok(1) [OF assms] by blast
  then have g: "get E w s = (Ok v, snd (get E w s))"
    by (metis prod.collapse)
  have u: "user (watchers (snd (get E w s)) w)"
    by (rule get_user_Ok(2) [OF assms])
  show ?thesis
    using True u
    apply (simp add: run_def getAndInvoke_def)
    apply (subst g)
    apply (auto simp: Let_def upd_watcher_def split: prod.splits outcome.splits)
    done
qed

lemma flush_body_user_Ok:
  assumes "keeps_flavor E (queue s ! index s)" and "user (watchers s (queue s ! index s))"
    and "\<not> has_before (watchers s (queue s ! index s))"
  shows "\<exists>st s'. flush_body E s = Some (Ok st, s')"
proof -
  let ?w = "queue s ! index s"
  let ?s2 = "emit (RunWatcher ?w) (s\<lparr>has := (has s)(?w := False)\<rparr>)"
  have "user (watchers ?s2 ?w)" using assms(2) by (simp add: emit_def)
  from run_user_Ok [OF assms(1) this] obtain s3 where "run E ?w ?s2 = Some (Ok (), s3)" ..
  then show ?thesis
    using assms(3) by (simp add: flush_body_def Let_def)
qed

text \<open>
  \<^verbatim>\<open>get\<close> pushes the watcher before the getter runs. A getter failure of a user
  watcher is reported through \<^verbatim>\<open>handleError\<close> and \<^verbatim>\<open>get\<close> goes on with
  \<^verbatim>\<open>undefined\<close>; a getter failure of any other watcher is thrown on by \<^verbatim>\<open>get\<close>
  and by \<^verbatim>\<open>getAndInvoke\<close>. A callback failure of a user watcher is reported and
  \<^verbatim>\<open>getAndInvoke\<close> returns. When the traversal returns (or the watcher is not deep),
  \<^verbatim>\<open>get\<close> ends with \<^verbatim>\<open>popTarget\<close> and \<^verbatim>\<open>cleanupDeps\<close> in either case: the
  current-cycle set is empty again and the stack is as \<^verbatim>\<open>popTarget\<close> leaves it. Then
  the run of a user watcher always returns, and the turn of the flush loop at a user
  watcher (with no \<^verbatim>\<open>before\<close> hook) never throws.
\<close>

lemma get_pops_and_reports:
  "target (pushTarget (Some w) s) = Some w \<and>
   guarded E w s =
     (case getter E w (pushTarget (Some w) s) of
        (Ok v, s2) \<Rightarrow> (Ok v, s2)
      | (Threw e, s2) \<Rightarrow>
          if user (watchers s2 w)
          then (Ok Undefined,
                handleError e (''getter for watcher '' @ quoted (expression (watchers s2 w))) s2)
          else (Threw e, s2)) \<and>
   (\<forall>s4. traversal E w s = (Ok (), s4) \<longrightarrow>
      get E w s = (fst (guarded E w s), cleanupDeps w (popTarget s4)) \<and>
      newDepIds (watchers (snd (get E w s)) w) = {} \<and>
      newDeps (watchers (snd (get E w s)) w) = [] \<and>
      (keeps_stack E w \<and> (target s = None \<longrightarrow> targetStack s = []) \<longrightarrow>
         target (snd (get E w s)) = target s \<and>
         targetStack (snd (get E w s)) = targetStack s)) \<and>
   (\<forall>e. fst (get E w s) = Threw e \<longrightarrow>
        getAndInvoke E w f s = Some (Threw e, snd (get E w s))) \<and>
   (\<forall>v s1 e s3.
        get E w s = (Ok v, s1) \<and>
        (\<not> strict_eq v (cached (watchers s1 w)) \<or> isObject v \<or> deep (watchers s1 w)) \<and>
        user (watchers s1 w) \<and>
        f v (cached (watchers s1 w))
          (upd_watcher w (\<lambda>W. W\<lparr>cached := v, dirty := False\<rparr>) s1) = Some (Threw e, s3) \<longrightarrow>
        getAndInvoke E w f s =
          Some (Ok (), handleError e
            (''callback for watcher '' @ quoted (expression (watchers s3 w))) s3)) \<and>
   (keeps_flavor E w \<and> user (watchers s w) \<longrightarrow> (\<exists>s'. run E w s = Some (Ok (), s'))) \<and>
   (keeps_flavor E (queue s ! index s) \<and> user (watchers s (queue s ! index s)) \<and>
    \<not> has_before (watchers s (queue s ! index s)) \<longrightarrow>
      (\<exists>st s'. flush_body E s = Some (Ok st, s')))"
proof -
  have a: "target (pushTarget (Some w) s) = Some w"
    by (simp add: pushTarget_def Let_def)
  have b: "\<forall>e. fst (get E w s) = Threw e \<longrightarrow>
        getAndInvoke E w f s = Some (Threw e, snd (get E w s))"
    by (auto simp: getAndInvoke_def split: prod.splits outcome.splits)
  have c: "\<forall>v s1 e s3.
        get E w s = (Ok v, s1) \<and>
        (\<not> strict_eq v (cached (watchers s1 w)) \<or> isObject v \<or> deep (watchers s1 w)) \<and>
        user (watchers s1 w) \<and>
        f v (cached (watchers s1 w))
          (upd_watcher w (\<lambda>W. W\<lparr>cached := v, dirty := False\<rparr>) s1) = Some (Threw e, s3) \<longrightarrow>
        getAndInvoke E w f s =
          Some (Ok (), handleError e
            (''callback for watcher '' @ quoted (expression (watchers s3 w))) s3)"
    by (auto simp: getAndInvoke_def Let_def upd_watcher_def)
  have d: "get E w s = (fst (guarded E w s), cleanupDeps w (popTarget s4)) \<and>
      newDepIds (watchers (snd (get E w s)) w) = {} \<and>
      newDeps (watchers (snd (get E w s)) w) = [] \<and>
      (keeps_stack E w \<and> (target s = None \<longrightarrow> targetStack s = []) \<longrightarrow>
         target (snd (get E w s)) = target s \<and>
         targetStack (snd (get E w s)) = targetStack s)"
    if t: "traversal E w s = (Ok (), s4)" for s4
  proof -
    have f: "fst (traversal E w s) = Ok ()" using t by simp
    show ?thesis
      using t get_reconciled [OF f] get_restores_stack(3) [OF _ f]
      by (auto simp: get_cases)
  qed
  have g: "guarded E w s =
     (case getter E w (pushTarget (Some w) s) of
        (Ok v, s2) \<Rightarrow> (Ok v, s2)
      | (Threw e, s2) \<Rightarrow>
          if user (watchers s2 w)
          then (Ok Undefined,
                handleError e (''getter for watcher '' @ quoted (expression (watchers s2 w))) s2)
          else (Threw e, s2))"
    by (simp add: guarded_def)
  show ?thesis
    using a b c d g run_user_Ok [of E w s] flush_body_user_Ok [of E s]
    by blast
qed


text \<open>
  Modelled from the spec: a traversal that reads the enumerable own properties of the
  value, from the last key to the first, through \<open>get_prop\<close> (one level deep, which is
  as deep as the values of the examples nest).
\<close>

fun read_keys :: "nat \<Rightarrow> env \<Rightarrow> addr \<Rightarrow> key list \<Rightarrow> world \<Rightarrow> unit outcome \<times> world" where
  "read_keys n E a [] s = (Ok (), s)"
| "read_keys n E a (k # ks) s =
     (case get_prop n E a k s of
        Some (Ok x, t) \<Rightarrow> read_keys n E a ks t
      | Some (Threw e, t) \<Rightarrow> (Threw e, t)
      | None \<Rightarrow> (Ok (), s))"

definition touch :: "nat \<Rightarrow> env \<Rightarrow> val \<Rightarrow> world \<Rightarrow> unit outcome \<times> world" where
  "touch n E v s =
     (case v of Ref a \<Rightarrow> read_keys n E a (rev (Object_keys (heap s a))) s | _ \<Rightarrow> (Ok (), s))"

text \<open>User getters that throw.\<close>

definition boom_env :: env where
  "boom_env = (const_env Undefined)\<lparr>user_get := (\<lambda>g a s. (Threw (Thrown (Str ''boom'')), s))\<rparr>"

text \<open>
  Watchers over the expression \<^verbatim>\<open>obj\<close>: the getter reads the reactive property of
  closure 11; the traversal of a deep watcher reads the properties of the value.
\<close>

definition deep_env :: env where
  "deep_env =
     boom_env\<lparr>getter := (\<lambda>w s.
        case reactiveGetter (Suc (Suc 0)) boom_env 11 s of
          Some r \<Rightarrow> r
        | None \<Rightarrow> (Ok Undefined, s)),
       traverse := touch (Suc (Suc 0)) boom_env\<rparr>"

text \<open>
  The object 4 is \<^verbatim>\<open>{obj: {get x () { throw 'boom' }}}\<close> with the object 5; ten
  Subjects and ten closures exist already. The object 4 has been observed as the root data of an instance
  (which calls no getter: the property \<^verbatim>\<open>x\<close> has no setter), and watcher 2 is a deep
  user watcher over \<^verbatim>\<open>obj\<close>.
\<close>

definition deep_base :: world where
  "deep_base =
     world0\<lparr>dep_uid := 10, cell_uid := 10, heap := (heap world0)
       (4 := empty_obj\<lparr>props :=
          [(Name ''obj'', \<lparr>configurable = True, enumerable = True, slot = Data (Ref 5)\<rparr>)]\<rparr>,
        5 := empty_obj\<lparr>props :=
          [(Name ''x'', \<lparr>configurable = True, enumerable = True,
                          slot = Accessor (Some (UserGet 0)) None\<rparr>)]\<rparr>),
       watchers := (watchers world0)
         (2 := (watchers world0 2)\<lparr>user := True, deep := True, expression := ''obj''\<rparr>)\<rparr>"

definition deep_example :: world where
  "deep_example =
     (case observe (Suc (Suc (Suc 0))) boom_env (Ref 4) True deep_base of
        Some (r, s) \<Rightarrow> s
      | None \<Rightarrow> deep_base)"

lemma deep_example_eq:
  "deep_example =
     world0\<lparr>heap := (heap world0)
         (5 := empty_obj\<lparr>props :=
            [(Name ''x'', \<lparr>configurable = True, enumerable = True,
                            slot = Accessor (Some (ReactiveGet 10)) (Some (ReactiveSet 10))\<rparr>)],
            ob := Some \<lparr>ob_dep = 12, vmCount = 0\<rparr>\<rparr>,
          4 := empty_obj\<lparr>props :=
            [(Name ''obj'', \<lparr>configurable = True, enumerable = True,
                              slot = Accessor (Some (ReactiveGet 11)) (Some (ReactiveSet 11))\<rparr>)],
            ob := Some \<lparr>ob_dep = 10, vmCount = 1\<rparr>\<rparr>),
       cells := (cells world0)
         (10 := \<lparr>c_obj = 5, c_key = Name ''x'', c_val = Undefined, c_dep = 13, childOb = None,
                 c_getter = Some (UserGet 0), c_setter = None, c_customSetter = None,
                 c_shallow = False\<rparr>,
          11 := \<lparr>c_obj = 4, c_key = Name ''obj'', c_val = Ref 5, c_dep = 11, childOb = Some 12,
                 c_getter = None, c_setter = None, c_customSetter = None, c_shallow = False\<rparr>),
       cell_uid := 12, dep_uid := 14,
       subs := (subs world0)(10 := [], 11 := [], 12 := [], 13 := []),
       watchers := (watchers world0)
         (2 := (watchers world0 2)\<lparr>user := True, deep := True, expression := ''obj''\<rparr>)\<rparr>"
  by (simp add: deep_example_def deep_base_def observe_with_def newObserver_with_def
      defineReactive_with_def def_ob_def own_desc_def newDep_def get_prop_def get_prop_with_def
      read_ob_def read_ob_with_def upd_obj_def Let_def Object_keys_def empty_obj_def world0_def
      boom_env_def const_env_def count_root_def item_at_def)

text \<open>
  C8. \<^verbatim>\<open>get\<close> is to pop the stack and reconcile the dependency sets whether the getter
  returns or throws, and it does (lemma \<open>get_pops_and_reports\<close>) as long as the
  traversal of a deep watcher returns. The traversal runs inside the \<^verbatim>\<open>finally\<close>
  block, before \<^verbatim>\<open>popTarget()\<close> and \<^verbatim>\<open>cleanupDeps()\<close>, and it reads through
  accessors, which can throw. Watcher 2 is a deep user watcher over \<^verbatim>\<open>obj\<close>, whose
  value has a property with a getter that throws. Its getter returns, registering the
  Subjects 11 and 12; the traversal throws. \<^verbatim>\<open>get\<close> throws that exception with
  watcher 2 still the active watcher and the Subjects 11 and 12 still in the
  current-cycle list, not in the previous-cycle list. The failure of this user watcher is
  not reported through \<^verbatim>\<open>handleError\<close>: the flush of the watchers 2 and 3 throws it,
  watcher 3 does not run, and the scheduler is left flushing. The same getter evaluated
  for watcher 3, which is not deep, returns with no active watcher and the Subjects
  reconciled.
\<close>

theorem get_traversal_failure_skips_pop:
  "user (watchers deep_example 2) \<and> deep (watchers deep_example 2) \<and>
   target deep_example = None \<and> targetStack deep_example = [] \<and>
   fst (getter deep_env 2 (pushTarget (Some 2) deep_example)) = Ok (Ref 5) \<and>
   (case get deep_env 2 deep_example of
      (r, s) \<Rightarrow> (r, target s, targetStack s, newDeps (watchers s 2), deps (watchers s 2), log s)) =
     (Threw (Thrown (Str ''boom'')), Some 2, [], [11, 12], [], []) \<and>
   map_option (\<lambda>r. (fst r, log (snd r), target (snd r), flushing (snd r)))
     (flushSchedulerQueue 2 deep_env (queueWatcher 3 (queueWatcher 2 deep_example))) =
     Some (Threw (Thrown (Str ''boom'')), [NextTick, RunWatcher 2], Some 2, True) \<and>
   (case get deep_env 3 deep_example of
      (r, s) \<Rightarrow> (r, target s, targetStack s, newDeps (watchers s 3), deps (watchers s 3), log s)) =
     (Ok (Ref 5), None, [], [], [11, 12], [])"
  by (simp add: deep_example_eq get_def deep_env_def boom_env_def const_env_def touch_def
      reactiveGetter_Suc reactiveGetter_with_def call_get_with_def get_prop_def
      get_prop_with_def world0_def empty_obj_def Object_keys_def pushTarget_def popTarget_def
      depend_def addDep_def upd_watcher_def addSub_def cleanupDeps_def Let_def
      flushSchedulerQueue_def numeral_2_eq_2 flush_body_def run_def getAndInvoke_def
      queueWatcher_def emit_def)


section \<open>The order of a flush\<close>

text \<open>
  The scheduler's variables are private to its module: the caller's code reaches them
  through \<^verbatim>\<open>queueWatcher\<close> alone, and it cannot make the flush loop run a watcher.
  \<open>enqueues_only A s s'\<close>: from \<open>s\<close> to \<open>s'\<close> the scheduler has seen nothing but
  enqueues of watchers in \<open>A\<close>.
\<close>

definition sched_view ::
  "world \<Rightarrow> wid list \<times> (wid \<Rightarrow> bool) \<times> nat \<times> bool \<times> (wid \<Rightarrow> nat) \<times> bool" where
  "sched_view s = (queue s, has s, index s, flushing s, circular s, waiting s)"

definition enqueues_only :: "wid set \<Rightarrow> world \<Rightarrow> world \<Rightarrow> bool" where
  "enqueues_only A s s' =
     (runs s' = runs s \<and>
      (\<exists>ws. set ws \<subseteq> A \<and> sched_view s' = sched_view (fold queueWatcher ws s)))"

definition sched_safe :: "wid set \<Rightarrow> env \<Rightarrow> bool" where
  "sched_safe A E =
     (\<forall>w s. enqueues_only A s (snd (getter E w s)) \<and>
            (\<forall>v old. enqueues_only A s (snd (cb E w v old s))) \<and>
            enqueues_only A s (snd (before E w s)) \<and>
            (\<forall>v. enqueues_only A s (snd (traverse E v s))))"

text \<open>The watcher at the cursor, and the watchers that have not been run yet: the
  watcher at the cursor and the pending ones.\<close>

definition cursor :: "world \<Rightarrow> wid" where
  "cursor s = queue s ! index s"

definition unrun :: "world \<Rightarrow> wid list" where
  "unrun s = drop (index s) (queue s)"

text \<open>
  The turns of the flush loop from the state \<open>s\<close> at its head: for each turn the
  state at its head, what the turn ends with, and the state it leaves (before the
  \<^verbatim>\<open>index++\<close>).
\<close>

fun flush_turns :: "nat \<Rightarrow> env \<Rightarrow> world \<Rightarrow> (world \<times> step outcome \<times> world) list" where
  "flush_turns 0 E s = []"
| "flush_turns (Suc n) E s =
     (if index s < length (queue s) then
        (case flush_body E s of
           None \<Rightarrow> []
         | Some (r, s1) \<Rightarrow>
             (s, r, s1) # (if r = Ok Continue then flush_turns n E (s1\<lparr>index := index s1 + 1\<rparr>)
                           else []))
      else [])"

lemma runs_emit:
  "runs (emit e s) = runs s @ (case e of RunWatcher w \<Rightarrow> [w] | _ \<Rightarrow> [])"
  by (simp add: runs_def emit_def)

lemma queueWatcher_view:
  "sched_view s = sched_view t \<Longrightarrow> sched_view (queueWatcher w s) = sched_view (queueWatcher w t)"
  by (simp add: sched_view_def queueWatcher_def Let_def emit_def)

lemma queueWatcher_runs: "runs (queueWatcher w s) = runs s"
  by (simp add: queueWatcher_def Let_def runs_def emit_def)

lemma fold_queueWatcher_view:
  "sched_view s = sched_view t \<Longrightarrow>
   sched_view (fold queueWatcher ws s) = sched_view (fold queueWatcher ws t)"
proof (induction ws arbitrary: s t)
  case Nil
  then show ?case by simp
next
  case (Cons w ws)
  have "sched_view (queueWatcher w s) = sched_view (queueWatcher w t)"
    by (rule queueWatcher_view [OF Cons.prems])
  from Cons.IH [OF this] show ?case by simp
qed

lemma enqueues_only_refl: "enqueues_only A s s"
  unfolding enqueues_only_def by (intro conjI exI [of _ "[]"]) simp_all

lemma enqueues_only_same:
  "sched_view s' = sched_view s \<Longrightarrow> runs s' = runs s \<Longrightarrow> enqueues_only A s s'"
  unfolding enqueues_only_def by (intro conjI exI [of _ "[]"]) simp_all

lemma enqueues_only_trans:
  assumes "enqueues_only A s s'" and "enqueues_only A s' s''"
  shows "enqueues_only A s s''"
proof -
  from assms(1) obtain ws where ws: "set ws \<subseteq> A"
    "sched_view s' = sched_view (fold queueWatcher ws s)" and r1: "runs s' = runs s"
    by (auto simp: enqueues_only_def)
  from assms(2) obtain ws' where ws': "set ws' \<subseteq> A"
    "sched_view s'' = sched_view (fold queueWatcher ws' s')" and r2: "runs s'' = runs s'"
    by (auto simp: enqueues_only_def)
  have "sched_view s'' = sched_view (fold queueWatcher (ws @ ws') s)"
    using ws'(2) fold_queueWatcher_view [OF ws(2), of ws'] by simp
  moreover have "set (ws @ ws') \<subseteq> A" using ws(1) ws'(1) by simp
  ultimately have "\<exists>zs. set zs \<subseteq> A \<and> sched_view s'' = sched_view (fold queueWatcher zs s)"
    by blast
  with r1 r2 show ?thesis
    by (simp add: enqueues_only_def)
qed

lemma enqueues_only_queueWatcher: "w \<in> A \<Longrightarrow> enqueues_only A s (queueWatcher w s)"
  unfolding enqueues_only_def
  by (intro conjI exI [of _ "[w]"]) (simp_all add: queueWatcher_runs)

lemma sched_inv_view:
  "sched_view s = sched_view t \<Longrightarrow> sched_inv cur s = sched_inv cur t"
  by (simp add: sched_view_def sched_inv_def pending_def)

lemma fold_queueWatcher_inv:
  "sched_inv cur s \<Longrightarrow>
   sched_inv cur (fold queueWatcher ws s) \<and>
   index (fold queueWatcher ws s) = index s \<and>
   take (Suc (index s)) (queue (fold queueWatcher ws s)) = take (Suc (index s)) (queue s) \<and>
   set (queue s) \<subseteq> set (queue (fold queueWatcher ws s)) \<and>
   set (pending s) \<subseteq> set (pending (fold queueWatcher ws s)) \<and>
   circular (fold queueWatcher ws s) = circular s"
proof (induction ws arbitrary: s)
  case Nil
  then show ?case by simp
next
  case (Cons w ws)
  let ?s1 = "queueWatcher w s"
  have inv1: "sched_inv cur ?s1" by (rule queueWatcher_sched_inv [OF Cons.prems])
  have idx: "index ?s1 = index s" "circular ?s1 = circular s"
    using queueWatcher_frame [of w s] by simp_all
  have pre: "take (Suc (index s)) (queue ?s1) = take (Suc (index s)) (queue s) \<and>
             set (queue s) \<subseteq> set (queue ?s1) \<and> set (pending s) \<subseteq> set (pending ?s1)"
  proof (cases "has s w")
    case True
    then show ?thesis by (simp add: queueWatcher_marked)
  next
    case False
    from Cons.prems have fl: "flushing s" and ix: "index s < length (queue s)"
      and srt: "sorted (drop (Suc (index s)) (queue s))"
      by (simp_all add: sched_inv_def pending_def)
    have q: "queue ?s1 = splice_in (splice_pos (queue s) (index s) w) w (queue s)"
      using queueWatcher_flushing [OF False fl] by simp
    have "set (queue s) \<subseteq> set (splice_in p w (queue s))" for p
    proof -
      have "set (queue s) = set (take p (queue s)) \<union> set (drop p (queue s))"
        by (simp only: set_append [symmetric] append_take_drop_id)
      then show ?thesis by (auto simp: splice_in_def)
    qed
    then show ?thesis
      using q idx splice_in_pending(1,3) [OF ix srt, of w] by (auto simp: pending_def)
  qed
  from Cons.IH [OF inv1] idx pre show ?case by auto
qed

lemma enqueues_only_inv:
  assumes "enqueues_only A s s'" and "sched_inv cur s"
  shows "sched_inv cur s'" and "index s' = index s"
    and "take (Suc (index s)) (queue s') = take (Suc (index s)) (queue s)"
    and "set (queue s) \<subseteq> set (queue s')" and "runs s' = runs s"
    and "flushing s'" and "set (pending s) \<subseteq> set (pending s')"
    and "circular s' = circular s"
proof -
  from assms(1) obtain ws where
    v: "sched_view s' = sched_view (fold queueWatcher ws s)" and r: "runs s' = runs s"
    by (auto simp: enqueues_only_def)
  note f = fold_queueWatcher_inv [OF assms(2), of ws]
  show "sched_inv cur s'" using f sched_inv_view [OF v] by simp
  then show "flushing s'" by (simp add: sched_inv_def)
  show "index s' = index s" using f v by (simp add: sched_view_def)
  show "take (Suc (index s)) (queue s') = take (Suc (index s)) (queue s)"
    using f v by (simp add: sched_view_def)
  show "set (queue s) \<subseteq> set (queue s')" using f v by (simp add: sched_view_def)
  show "runs s' = runs s" by (rule r)
  show "set (pending s) \<subseteq> set (pending s')"
    using f v by (auto simp: sched_view_def pending_def)
  show "circular s' = circular s" using f v by (simp add: sched_view_def)
qed

lemma enqueues_only_quiet:
  "enqueues_only {} s s' \<Longrightarrow> sched_view s' = sched_view s \<and> runs s' = runs s"
  by (auto simp: enqueues_only_def)

lemma internal_same:
  "sched_view (pushTarget x s) = sched_view s \<and> runs (pushTarget x s) = runs s"
  "sched_view (popTarget s) = sched_view s \<and> runs (popTarget s) = runs s"
  "sched_view (upd_watcher w g s) = sched_view s \<and> runs (upd_watcher w g s) = runs s"
  "sched_view (handleError e info s) = sched_view s \<and> runs (handleError e info s) = runs s"
  "sched_view (cleanupDeps w s) = sched_view s \<and> runs (cleanupDeps w s) = runs s"
  using cleanupDeps_frame [of w s]
  by (simp_all add: sched_view_def runs_def pushTarget_def popTarget_def upd_watcher_def
      handleError_def emit_def Let_def split: option.splits)

lemma enqueues_only_then_same:
  "enqueues_only A s s' \<Longrightarrow> sched_view s'' = sched_view s' \<and> runs s'' = runs s' \<Longrightarrow>
   enqueues_only A s s''"
  by (auto simp: enqueues_only_def)

lemma same_then_enqueues_only:
  "sched_view s' = sched_view s \<and> runs s' = runs s \<Longrightarrow> enqueues_only A s' s'' \<Longrightarrow>
   enqueues_only A s s''"
  using enqueues_only_trans [OF enqueues_only_same] by blast

lemma get_enqueues:
  assumes "sched_safe A E"
  shows "enqueues_only A s (snd (get E w s))"
proof -
  let ?s1 = "pushTarget (Some w) s"
  obtain r s2 where g: "getter E w ?s1 = (r, s2)" by (cases "getter E w ?s1")
  have e2: "enqueues_only A s s2"
  proof (rule same_then_enqueues_only [OF internal_same(1)])
    show "enqueues_only A ?s1 s2"
      using assms g by (metis sched_safe_def snd_conv)
  qed
  have h: "enqueues_only A s (handleError e info s2)" for e info
    using e2 internal_same(4) [of e info s2] by (auto intro: enqueues_only_then_same)
  obtain res s3 where gd: "guarded E w s = (res, s3)" by (cases "guarded E w s")
  have e3: "enqueues_only A s s3"
    using gd g e2 h by (cases r) (auto simp: guarded_def split: if_splits)
  have tr: "enqueues_only A t (snd (traverse E v t))" for v t
    using assms by (simp add: sched_safe_def)
  obtain rt s4 where t: "traversal E w s = (rt, s4)" by (cases "traversal E w s")
  have e4: "enqueues_only A s s4"
  proof (cases "deep (watchers s3 w)")
    case True
    with t gd have "s4 = snd (traverse E (case res of Ok v \<Rightarrow> v | Threw e \<Rightarrow> Undefined) s3)"
      by (simp add: traversal_def)
    with e3 tr show ?thesis using enqueues_only_trans by blast
  next
    case False
    with t gd e3 show ?thesis by (simp add: traversal_def)
  qed
  have fin: "enqueues_only A s (cleanupDeps w (popTarget s4))"
    using e4 internal_same(2) [of s4] internal_same(5) [of w "popTarget s4"]
    by (auto intro: enqueues_only_then_same)
  show ?thesis
    using t e4 fin by (cases rt) (simp_all add: get_cases)
qed

lemma getAndInvoke_enqueues:
  assumes "sched_safe A E"
    and f: "\<And>v old t r t'. f v old t = Some (r, t') \<Longrightarrow> enqueues_only A t t'"
    and res: "getAndInvoke E w f s = Some (r, s')"
  shows "enqueues_only A s s'"
proof -
  obtain g s1 where g: "get E w s = (g, s1)" by (cases "get E w s")
  have e1: "enqueues_only A s s1"
    using get_enqueues [OF assms(1), of s w] g by simp
  show ?thesis
  proof (cases g)
    case (Threw e)
    with g res e1 show ?thesis by (simp add: getAndInvoke_def)
  next
    case (Ok v)
    let ?s2 = "upd_watcher w (\<lambda>W. W\<lparr>cached := v, dirty := False\<rparr>) s1"
    have e2: "enqueues_only A s ?s2"
      using e1 internal_same(3) by (auto intro: enqueues_only_then_same)
    show ?thesis
    proof (cases "\<not> strict_eq v (cached (watchers s1 w)) \<or> isObject v \<or> deep (watchers s1 w)")
      case False
      with g Ok res e1 show ?thesis by (simp add: getAndInvoke_def)
    next
      case True
      then have r1: "getAndInvoke E w f s =
          (if user (watchers ?s2 w)
           then (case f v (cached (watchers s1 w)) ?s2 of
                   None \<Rightarrow> None
                 | Some (Threw e, s3) \<Rightarrow>
                     Some (Ok (), handleError e
                       (''callback for watcher '' @ quoted (expression (watchers s3 w))) s3)
                 | Some (Ok u, s3) \<Rightarrow> Some (Ok (), s3))
           else f v (cached (watchers s1 w)) ?s2)"
        using g Ok by (simp add: getAndInvoke_def Let_def)
      obtain r3 s3 where f3: "f v (cached (watchers s1 w)) ?s2 = Some (r3, s3)"
        using res r1 by (cases "f v (cached (watchers s1 w)) ?s2") (auto split: if_splits)
      have e3: "enqueues_only A s s3"
        using e2 f [OF f3] by (rule enqueues_only_trans)
      have e4: "enqueues_only A s (handleError e info s3)" for e info
        using e3 internal_same(4) [of e info s3] by (auto intro: enqueues_only_then_same)
      show ?thesis
        using res r1 f3 e3 e4 by (cases r3) (auto split: if_splits)
    qed
  qed
qed

lemma run_enqueues:
  assumes "sched_safe A E" and "run E w s = Some (r, s')"
  shows "enqueues_only A s s'"
proof (cases "active (watchers s w)")
  case False
  with assms(2) show ?thesis by (simp add: run_def enqueues_only_refl)
next
  case True
  let ?f = "\<lambda>v old t. Some (cb E w v old t)"
  have g: "getAndInvoke E w ?f s = Some (r, s')"
    using assms(2) True by (simp add: run_def)
  show ?thesis
  proof (rule getAndInvoke_enqueues [where f = ?f, OF assms(1) _ g])
    fix v old t r' t'
    assume a: "Some (cb E w v old t) = Some (r', t')"
    have "enqueues_only A t (snd (cb E w v old t))"
      using assms(1) by (simp add: sched_safe_def)
    with a show "enqueues_only A t t'" by simp
  qed
qed

lemma run_returns: "\<exists>r s'. run E w s = Some (r, s')"
  by (cases "get E w s")
    (auto simp: run_def getAndInvoke_def Let_def split: outcome.splits prod.splits)

text \<open>
  \<open>first_order Q rs\<close>: in the sequence of runs \<open>rs\<close>, whenever a watcher runs,
  every watcher of \<open>Q\<close> with a smaller id has run before.
\<close>

definition first_order :: "wid list \<Rightarrow> wid list \<Rightarrow> bool" where
  "first_order Q rs = (\<forall>j < length rs. \<forall>a \<in> set Q. a < rs ! j \<longrightarrow> a \<in> set (take j rs))"

text \<open>
  The state at the head of the loop of a flush that started with the queue \<open>Q\<close>,
  after the runs \<open>R\<close> of earlier flushes.
\<close>

definition head_inv :: "wid list \<Rightarrow> wid list \<Rightarrow> world \<Rightarrow> bool" where
  "head_inv R Q s =
     (flushing s \<and> index s \<le> length (queue s) \<and>
      sorted (unrun s) \<and> distinct (unrun s) \<and>
      (\<forall>w. has s w = (w \<in> set (unrun s))) \<and>
      runs s = R @ take (index s) (queue s) \<and> set Q \<subseteq> set (queue s) \<and>
      first_order Q (take (index s) (queue s)))"

lemma first_order_snoc:
  assumes "first_order Q rs" and "\<forall>a \<in> set Q. a < w \<longrightarrow> a \<in> set rs"
  shows "first_order Q (rs @ [w])"
  unfolding first_order_def
proof (intro allI impI ballI)
  fix j a
  assume j: "j < length (rs @ [w])" and a: "a \<in> set Q" and lt: "a < (rs @ [w]) ! j"
  show "a \<in> set (take j (rs @ [w]))"
  proof (cases "j < length rs")
    case True
    with assms(1) a lt show ?thesis
      by (simp add: first_order_def nth_append)
  next
    case False
    with j have "j = length rs" by simp
    with assms(2) a lt show ?thesis by simp
  qed
qed

lemma head_inv_cursor:
  assumes "head_inv R Q s" and "index s < length (queue s)"
  shows "sched_inv True s"
    and "\<forall>a \<in> set Q. a < queue s ! index s \<longrightarrow> a \<in> set (take (index s) (queue s))"
    and "sorted_wrt (<) (unrun s)"
proof -
  let ?i = "index s" and ?q = "queue s"
  have dr: "drop ?i ?q = ?q ! ?i # drop (Suc ?i) ?q"
    using assms(2) by (simp add: Cons_nth_drop_Suc)
  from assms(1) have srt: "sorted (drop ?i ?q)" and dst: "distinct (drop ?i ?q)"
    and hs: "\<forall>w. has s w = (w \<in> set (drop ?i ?q))" and fl: "flushing s"
    and sub: "set Q \<subseteq> set ?q"
    by (simp_all add: head_inv_def unrun_def)
  show "sched_inv True s"
    using srt dst hs fl assms(2) unfolding dr sched_inv_def pending_def by auto
  show "\<forall>a \<in> set Q. a < ?q ! ?i \<longrightarrow> a \<in> set (take ?i ?q)"
  proof (intro ballI impI)
    fix a assume a: "a \<in> set Q" and lt: "a < ?q ! ?i"
    have "set ?q = set (take ?i ?q) \<union> set (drop ?i ?q)"
      by (simp only: set_append [symmetric] append_take_drop_id)
    with a sub have "a \<in> set (take ?i ?q) \<or> a \<in> set (drop ?i ?q)" by auto
    moreover have "?q ! ?i \<le> a" if "a \<in> set (drop ?i ?q)"
      using that srt unfolding dr by auto
    ultimately show "a \<in> set (take ?i ?q)" using lt by auto
  qed
  show "sorted_wrt (<) (unrun s)"
    using srt dst by (simp add: unrun_def strict_sorted_iff)
qed

lemma sched_inv_clear:
  assumes "sched_inv True s"
  shows "sched_inv False (emit e (s\<lparr>has := (has s)(queue s ! index s := False)\<rparr>))"
  using assms by (auto simp: sched_inv_def pending_def emit_def)

lemma sched_inv_advance:
  assumes "sched_inv False s" and "runs s = R @ take (Suc (index s)) (queue s)"
    and "set Q \<subseteq> set (queue s)" and "first_order Q (take (Suc (index s)) (queue s))"
    and "queue s' = queue s" and "has s' = has s" and "flushing s' = flushing s"
    and "index s' = Suc (index s)" and "runs s' = runs s"
  shows "head_inv R Q s'"
  using assms by (auto simp: sched_inv_def pending_def head_inv_def unrun_def)

text \<open>
  One turn of the loop from a head state: what the turn does to the scheduler and to
  the record of runs.
\<close>

lemma flush_body_step:
  assumes safe: "sched_safe A E" and hi: "head_inv R Q s"
    and lt: "index s < length (queue s)" and res: "flush_body E s = Some (r, s1)"
  shows "r = Ok Continue \<Longrightarrow> head_inv R Q (s1\<lparr>index := index s1 + 1\<rparr>)"
    and "r \<noteq> Ok Continue \<Longrightarrow> index s1 < length (queue s1)"
    and "A = {} \<Longrightarrow> queue s1 = queue s \<and> index s1 = index s \<and> r \<noteq> Ok Break"
    and "\<exists>m. runs s1 = R @ take m (queue s1) \<and> first_order Q (take m (queue s1))"
    and "\<forall>st. r = Ok st \<longrightarrow>
           sched_inv False s1 \<and> index s1 = index s \<and>
           take (Suc (index s)) (queue s1) = take (Suc (index s)) (queue s) \<and>
           set (pending s) \<subseteq> set (pending s1) \<and> runs s1 = runs s @ [cursor s]"
    and "runs s1 = runs s \<or> runs s1 = runs s @ [cursor s]"
proof -
  let ?i = "index s" and ?w = "queue s ! index s"
  note cur = head_inv_cursor [OF hi lt]
  from hi have rs: "runs s = R @ take ?i (queue s)" and fo: "first_order Q (take ?i (queue s))"
    and sub: "set Q \<subseteq> set (queue s)"
    by (simp_all add: head_inv_def)
  obtain rb sb where b: "(if has_before (watchers s ?w) then before E ?w s else (Ok (), s)) = (rb, sb)"
    by (cases "if has_before (watchers s ?w) then before E ?w s else (Ok (), s)")
  have eb: "enqueues_only A s sb"
  proof (cases "has_before (watchers s ?w)")
    case True
    with b have "sb = snd (before E ?w s)" by simp
    with safe show ?thesis by (simp add: sched_safe_def)
  next
    case False
    with b show ?thesis by (simp add: enqueues_only_refl)
  qed
  note ib = enqueues_only_inv [OF eb cur(1)]
  have ltb: "index sb < length (queue sb)" using ib(1) by (simp add: sched_inv_def)
  have tki: "take ?i (queue sb) = take ?i (queue s)"
    using ib(3) by (metis min.absorb1 le_Suc_eq order_refl take_take)
  have wb: "queue sb ! index sb = ?w"
    using ib(2,3) by (metis lessI nth_take)
  have qb: "A = {} \<longrightarrow> queue sb = queue s"
    using eb enqueues_only_quiet [of s sb] by (auto simp: sched_view_def)
  have main: "(r = Ok Continue \<longrightarrow> head_inv R Q (s1\<lparr>index := index s1 + 1\<rparr>)) \<and>
      (r \<noteq> Ok Continue \<longrightarrow> index s1 < length (queue s1)) \<and>
      (A = {} \<longrightarrow> queue s1 = queue s \<and> index s1 = index s \<and> r \<noteq> Ok Break) \<and>
      (\<exists>m. runs s1 = R @ take m (queue s1) \<and> first_order Q (take m (queue s1))) \<and>
      (\<forall>st. r = Ok st \<longrightarrow>
           sched_inv False s1 \<and> index s1 = index s \<and>
           take (Suc (index s)) (queue s1) = take (Suc (index s)) (queue s) \<and>
           set (pending s) \<subseteq> set (pending s1) \<and> runs s1 = runs s @ [cursor s]) \<and>
      (runs s1 = runs s \<or> runs s1 = runs s @ [cursor s])"
      (is ?goal)
    proof (cases rb)
      case (Threw e)
      with res b have "r = Threw e" "s1 = sb"
        by (simp_all add: flush_body_def Let_def)
      then show ?goal
        using ib(2,5) ltb tki rs fo qb by (auto intro: exI [of _ "index s"])
    next
      case (Ok u)
      let ?s2 = "emit (RunWatcher ?w) (sb\<lparr>has := (has sb)(?w := False)\<rparr>)"
      have inv2: "sched_inv False ?s2"
        using sched_inv_clear [OF ib(1), of "RunWatcher ?w"] wb by simp
      have q2: "queue ?s2 = queue sb" "index ?s2 = ?i"
        using ib(2) by (simp_all add: emit_def)
      have r2': "runs ?s2 = runs s @ [?w]"
        using ib(5) by (simp add: runs_emit) (simp add: runs_def)
      have r2: "runs ?s2 = R @ take (Suc ?i) (queue s)"
        using r2' rs lt by (simp add: take_Suc_conv_app_nth)
      have p2: "set (pending s) \<subseteq> set (pending ?s2)"
        using ib(7) by (simp add: pending_def emit_def)
      obtain r3 s3 where run3: "run E ?w ?s2 = Some (r3, s3)"
        using run_returns by blast
      have e3: "enqueues_only A ?s2 s3" by (rule run_enqueues [OF safe run3])
      note i3 = enqueues_only_inv [OF e3 inv2]
      have tk3: "take (Suc ?i) (queue s3) = take (Suc ?i) (queue s)"
        using i3(3) ib(3) q2 by simp
      have r3s: "runs s3 = R @ take (Suc ?i) (queue s3)"
        using i3(5) r2 tk3 by simp
      have r3': "runs s3 = runs s @ [cursor s]"
        using i3(5) r2' by (simp add: cursor_def)
      have p3: "set (pending s) \<subseteq> set (pending s3)"
        using p2 i3(7) by blast
      have sub3: "set Q \<subseteq> set (queue s3)"
        using sub ib(4) i3(4) q2 by auto
      have fo3: "first_order Q (take (Suc ?i) (queue s3))"
        unfolding tk3 using first_order_snoc [OF fo cur(2)] lt
        by (simp add: take_Suc_conv_app_nth)
      have lt3: "index s3 < length (queue s3)" "index s3 = ?i"
        using i3(1,2) q2 by (simp_all add: sched_inv_def)
      have q3: "A = {} \<longrightarrow> queue s3 = queue s \<and> \<not> has s3 ?w"
      proof
        assume A: "A = {}"
        then have "sched_view s3 = sched_view ?s2"
          using e3 enqueues_only_quiet [of ?s2 s3] by simp
        then have "queue s3 = queue sb" "has s3 = has ?s2"
          by (simp_all add: sched_view_def emit_def)
        with A qb show "queue s3 = queue s \<and> \<not> has s3 ?w"
          by (simp add: emit_def)
      qed
      show ?goal
      proof (cases r3)
        case (Threw e)
        with res b Ok run3 have "r = Threw e" "s1 = s3"
          by (simp_all add: flush_body_def Let_def)
        then show ?goal
          using r3s r3' fo3 lt3 q3 by (auto intro: exI [of _ "Suc (index s)"])
      next
        case ok3: (Ok u')
        let ?s4 = "s3\<lparr>circular := (circular s3)(?w := circular s3 ?w + 1)\<rparr>"
        have fb: "flush_body E s = Some
            (if \<not> production E \<and> has s3 ?w then
               (if circular ?s4 ?w > MAX_UPDATE_COUNT
                then (Ok Break, emit (Warn (loop_warning (watchers ?s4 ?w))) ?s4)
                else (Ok Continue, ?s4))
             else (Ok Continue, s3))"
          using b Ok run3 ok3 by (simp add: flush_body_def Let_def)
        have h4: "head_inv R Q (?s4\<lparr>index := index ?s4 + 1\<rparr>)"
          by (rule sched_inv_advance [OF i3(1)])
            (use r3s sub3 fo3 lt3 in \<open>simp_all add: runs_def\<close>)
        have h3: "head_inv R Q (s3\<lparr>index := index s3 + 1\<rparr>)"
          by (rule sched_inv_advance [OF i3(1)])
            (use r3s sub3 fo3 lt3 in \<open>simp_all add: runs_def\<close>)
        have rw: "runs (emit (Warn m) ?s4) = runs s3" for m
          by (simp add: runs_emit) (simp add: runs_def)
        have r4: "runs ?s4 = runs s3" by (simp add: runs_def)
        have ex3: "\<exists>m. runs s3 = R @ take m (queue s3) \<and> first_order Q (take m (queue s3))"
          using r3s fo3 by blast
        have v4: "sched_inv False ?s4" "sched_inv False (emit (Warn m) ?s4)" for m
          using i3(1) by (simp_all add: sched_inv_def pending_def emit_def)
        have pp: "pending ?s4 = pending s3" "pending (emit (Warn m) ?s4) = pending s3" for m
          by (simp_all add: pending_def emit_def)
        from res fb show ?goal
          using h3 h4 rw r4 r3' fo3 lt3 q3 ex3 v4 pp i3(1) tk3 p3
          by (auto simp: emit_def split: if_splits)
      qed
    qed
  from main show "r = Ok Continue \<Longrightarrow> head_inv R Q (s1\<lparr>index := index s1 + 1\<rparr>)"
    and "r \<noteq> Ok Continue \<Longrightarrow> index s1 < length (queue s1)"
    and "A = {} \<Longrightarrow> queue s1 = queue s \<and> index s1 = index s \<and> r \<noteq> Ok Break"
    and "\<exists>m. runs s1 = R @ take m (queue s1) \<and> first_order Q (take m (queue s1))"
    and "\<forall>st. r = Ok st \<longrightarrow>
           sched_inv False s1 \<and> index s1 = index s \<and>
           take (Suc (index s)) (queue s1) = take (Suc (index s)) (queue s) \<and>
           set (pending s) \<subseteq> set (pending s1) \<and> runs s1 = runs s @ [cursor s]"
    and "runs s1 = runs s \<or> runs s1 = runs s @ [cursor s]"
    by blast+
qed

lemma flush_body_returns: "\<exists>r s1. flush_body E s = Some (r, s1)"
proof -
  let ?w = "queue s ! index s"
  obtain rb sb where b:
    "(if has_before (watchers s ?w) then before E ?w s else (Ok (), s)) = (rb, sb)"
    by (cases "if has_before (watchers s ?w) then before E ?w s else (Ok (), s)")
  obtain r3 s3 where
    "run E ?w (emit (RunWatcher ?w) (sb\<lparr>has := (has sb)(?w := False)\<rparr>)) = Some (r3, s3)"
    using run_returns by blast
  with b show ?thesis
    by (cases rb; cases r3) (auto simp: flush_body_def Let_def)
qed


lemma flush_turns_hd: "flush_turns n E s = tr # trs \<Longrightarrow> fst tr = s"
  by (cases n) (auto split: if_splits option.splits)

lemma flush_turns_chain:
  "Suc i < length (flush_turns n E s) \<Longrightarrow>
   fst (snd (flush_turns n E s ! i)) = Ok Continue \<and>
   fst (flush_turns n E s ! Suc i) =
     (snd (snd (flush_turns n E s ! i)))\<lparr>index := index (snd (snd (flush_turns n E s ! i))) + 1\<rparr>"
proof (induction n arbitrary: s i)
  case 0
  then show ?case by simp
next
  case (Suc n)
  have lt: "index s < length (queue s)"
  proof (rule ccontr)
    assume "\<not> index s < length (queue s)"
    with Suc.prems show False by simp
  qed
  obtain r s1 where fb: "flush_body E s = Some (r, s1)"
    using flush_body_returns by blast
  let ?nx = "s1\<lparr>index := index s1 + 1\<rparr>"
  have c: "r = Ok Continue"
    using Suc.prems lt fb by (auto split: if_splits)
  then have tr: "flush_turns (Suc n) E s = (s, r, s1) # flush_turns n E ?nx"
    using lt fb by simp
  show ?case
  proof (cases i)
    case 0
    with Suc.prems tr obtain tr1 trs where rest: "flush_turns n E ?nx = tr1 # trs"
      by (cases "flush_turns n E ?nx") auto
    from flush_turns_hd [OF rest] have "fst tr1 = ?nx" .
    with 0 tr rest c show ?thesis by simp
  next
    case (Suc j)
    with Suc.prems tr have "Suc j < length (flush_turns n E ?nx)" by simp
    from Suc.IH [OF this] Suc tr show ?thesis by simp
  qed
qed

lemma flush_turns_inv:
  assumes "sched_safe A E"
  shows "head_inv R Q s \<Longrightarrow> (t, r, t1) \<in> set (flush_turns n E s) \<Longrightarrow>
         head_inv R Q t \<and> index t < length (queue t) \<and> flush_body E t = Some (r, t1)"
proof (induction n arbitrary: s)
  case 0
  then show ?case by simp
next
  case (Suc n)
  have lt: "index s < length (queue s)"
  proof (rule ccontr)
    assume "\<not> index s < length (queue s)"
    with Suc.prems(2) show False by simp
  qed
  obtain rb s1 where fb: "flush_body E s = Some (rb, s1)"
    using flush_body_returns by blast
  let ?nx = "s1\<lparr>index := index s1 + 1\<rparr>"
  from Suc.prems(2) lt fb have
    "(t, r, t1) = (s, rb, s1) \<or> (rb = Ok Continue \<and> (t, r, t1) \<in> set (flush_turns n E ?nx))"
    by (auto split: if_splits)
  then show ?case
  proof
    assume "(t, r, t1) = (s, rb, s1)"
    with Suc.prems(1) lt fb show ?thesis by simp
  next
    assume a: "rb = Ok Continue \<and> (t, r, t1) \<in> set (flush_turns n E ?nx)"
    then have "head_inv R Q ?nx"
      using flush_body_step(1) [OF assms Suc.prems(1) lt fb] by simp
    from Suc.IH [OF this] a show ?thesis by simp
  qed
qed

lemma turn_facts:
  assumes "sched_safe A E" and "head_inv R Q s" and "(t, r, t1) \<in> set (flush_turns n E s)"
  shows "index t < length (queue t) \<and> sorted_wrt (<) (unrun t) \<and>
         (\<forall>w. has t w = (w \<in> set (unrun t))) \<and>
         (\<forall>st. r = Ok st \<longrightarrow>
            index t1 = index t \<and>
            take (Suc (index t)) (queue t1) = take (Suc (index t)) (queue t) \<and>
            set (pending t) \<subseteq> set (pending t1) \<and>
            sorted_wrt (<) (pending t1) \<and> (\<forall>w. has t1 w = (w \<in> set (pending t1))))"
proof -
  from flush_turns_inv [OF assms] have hi: "head_inv R Q t"
    and lt: "index t < length (queue t)" and fb: "flush_body E t = Some (r, t1)"
    by simp_all
  note st = flush_body_step(5) [OF assms(1) hi lt fb]
  have "sorted_wrt (<) (pending t1) \<and> (\<forall>w. has t1 w = (w \<in> set (pending t1)))"
    if "sched_inv False t1"
    using that by (simp add: sched_inv_def strict_sorted_iff)
  with st lt head_inv_cursor(3) [OF hi lt] hi show ?thesis
    by (simp add: head_inv_def)
qed

lemma flush_loop_runs:
  assumes "sched_safe A E"
  shows "head_inv R Q s \<Longrightarrow> flush_loop n E s = Some (r, s') \<Longrightarrow>
     (runs s' = runs s @ map (cursor \<circ> fst) (flush_turns n E s) \<or>
      (r \<noteq> Ok () \<and> runs s' = runs s @ map (cursor \<circ> fst) (butlast (flush_turns n E s))))"
proof (induction n arbitrary: s)
  case 0
  then show ?case by (auto split: if_splits)
next
  case (Suc n)
  show ?case
  proof (cases "index s < length (queue s)")
    case False
    with Suc.prems show ?thesis by auto
  next
    case True
    obtain rb s1 where fb: "flush_body E s = Some (rb, s1)"
      using flush_body_returns by blast
    note st = flush_body_step [OF assms Suc.prems(1) True fb]
    let ?nx = "s1\<lparr>index := index s1 + 1\<rparr>"
    show ?thesis
    proof (cases "rb = Ok Continue")
      case c: True
      have tr: "flush_turns (Suc n) E s = (s, rb, s1) # flush_turns n E ?nx"
        using True fb c by simp
      have rec: "flush_loop n E ?nx = Some (r, s')"
        using Suc.prems(2) fb True c by simp
      have r1: "runs ?nx = runs s @ [cursor s]"
        using st(5) c by (simp add: runs_def)
      from Suc.IH [OF st(1) [OF c] rec] show ?thesis
      proof
        assume "runs s' = runs ?nx @ map (cursor \<circ> fst) (flush_turns n E ?nx)"
        with r1 tr show ?thesis by simp
      next
        assume a: "r \<noteq> Ok () \<and>
          runs s' = runs ?nx @ map (cursor \<circ> fst) (butlast (flush_turns n E ?nx))"
        show ?thesis
        proof (cases "flush_turns n E ?nx = []")
          case True
          with a r1 tr show ?thesis by simp
        next
          case False
          with a r1 tr show ?thesis by simp
        qed
      qed
    next
      case False
      have tr: "flush_turns (Suc n) E s = [(s, rb, s1)]"
        using True fb False by simp
      have s': "s' = s1"
        using Suc.prems(2) fb True False by (cases rb) (auto split: step.splits)
      show ?thesis
      proof (cases rb)
        case (Ok st')
        with st(5) s' tr show ?thesis by simp
      next
        case (Threw e)
        with Suc.prems(2) fb True have "r = Threw e" by simp
        with st(6) s' tr show ?thesis by auto
      qed
    qed
  qed
qed

lemma flush_loop_order:
  assumes "sched_safe A E"
  shows "head_inv R Q s \<Longrightarrow> flush_loop n E s = Some (r, s') \<Longrightarrow>
    (\<exists>m. runs s' = R @ take m (queue s') \<and> first_order Q (take m (queue s'))) \<and>
    (A = {} \<longrightarrow> queue s' = queue s \<and> (r = Ok () \<longrightarrow> runs s' = R @ queue s))"
proof (induction n arbitrary: s)
  case 0
  then have ge: "length (queue s) \<le> index s" and eq: "s' = s" "r = Ok ()"
    by (auto split: if_splits)
  with "0.prems"(1) have "runs s = R @ queue s"
    "first_order Q (take (index s) (queue s))" "runs s = R @ take (index s) (queue s)"
    by (simp_all add: head_inv_def)
  with ge eq show ?case by (auto intro: exI [of _ "index s"])
next
  case (Suc n)
  show ?case
  proof (cases "index s < length (queue s)")
    case False
    with Suc.prems have ge: "length (queue s) \<le> index s" and eq: "s' = s" "r = Ok ()"
      by auto
    with Suc.prems(1) have "runs s = R @ queue s"
      "first_order Q (take (index s) (queue s))" "runs s = R @ take (index s) (queue s)"
      by (simp_all add: head_inv_def)
    with ge eq show ?thesis by (auto intro: exI [of _ "index s"])
  next
    case True
    obtain rb s1 where fb: "flush_body E s = Some (rb, s1)"
      using flush_body_returns by blast
    note st = flush_body_step [OF assms Suc.prems(1) True fb]
    show ?thesis
    proof (cases "rb = Ok Continue")
      case True
      with Suc.prems(2) fb \<open>index s < length (queue s)\<close>
      have rec: "flush_loop n E (s1\<lparr>index := index s1 + 1\<rparr>) = Some (r, s')" by simp
      from Suc.IH [OF st(1) [OF True] rec] st(3) show ?thesis by auto
    next
      case False
      with Suc.prems(2) fb \<open>index s < length (queue s)\<close> have "s' = s1"
        by (cases rb) (auto split: step.splits)
      moreover from False Suc.prems(2) fb \<open>index s < length (queue s)\<close>
      have "A = {} \<longrightarrow> r \<noteq> Ok ()"
        using st(3) by (cases rb) (auto split: step.splits)
      ultimately show ?thesis
        using st(3,4) by auto
    qed
  qed
qed

lemma flush_loop_quiet_returns:
  assumes "sched_safe {} E"
  shows "head_inv R Q s \<Longrightarrow> length (queue s) - index s \<le> n \<Longrightarrow>
    \<exists>r s'. flush_loop n E s = Some (r, s')"
proof (induction n arbitrary: s)
  case 0
  then show ?case by simp
next
  case (Suc n)
  show ?case
  proof (cases "index s < length (queue s)")
    case False
    then show ?thesis by simp
  next
    case True
    obtain rb s1 where fb: "flush_body E s = Some (rb, s1)"
      using flush_body_returns by blast
    note st = flush_body_step [OF assms Suc.prems(1) True fb]
    show ?thesis
    proof (cases "rb = Ok Continue")
      case c: True
      have "length (queue (s1\<lparr>index := index s1 + 1\<rparr>)) - index (s1\<lparr>index := index s1 + 1\<rparr>) \<le> n"
        using st(3) Suc.prems(2) True by simp
      from Suc.IH [OF st(1) [OF c] this] fb c True show ?thesis by simp
    next
      case False
      with fb True show ?thesis
        by (cases rb) (auto split: step.splits)
    qed
  qed
qed

lemma runs_hooks:
  "runs (callActivatedHooks vms s) = runs s"
  "runs (callUpdatedHooks E q s) = runs s"
  "runs (resetSchedulerState E s) = runs s"
proof -
  show "runs (callActivatedHooks vms s) = runs s"
    unfolding callActivatedHooks_def
    by (induction vms arbitrary: s) (simp_all add: runs_emit)
  have "runs (fold (\<lambda>w s'. if mounted_render E w s'
            then emit (CallHookUpdated (vm (watchers s' w))) s' else s') ws s) = runs s" for ws
    by (induction ws arbitrary: s) (simp_all add: runs_emit)
  then show "runs (callUpdatedHooks E q s) = runs s"
    by (simp add: callUpdatedHooks_def)
  show "runs (resetSchedulerState E s) = runs s"
    by (simp add: resetSchedulerState_def runs_def)
qed

lemma flushSchedulerQueue_runs:
  "flushSchedulerQueue n E s = Some (r, s') \<Longrightarrow>
   \<exists>r1 s1. flush_loop n E (s\<lparr>flushing := True, queue := sort (queue s), index := 0\<rparr>) =
             Some (r1, s1) \<and> runs s' = runs s1 \<and> (r = Ok ()) = (r1 = Ok ())"
  by (auto simp: flushSchedulerQueue_def Let_def runs_hooks runs_emit
      split: option.splits outcome.splits prod.splits if_splits)

lemma head_inv_start:
  assumes "distinct (queue s)" and "\<forall>w. has s w = (w \<in> set (queue s))"
  shows "head_inv (runs s) (queue s) (s\<lparr>flushing := True, queue := sort (queue s), index := 0\<rparr>)"
  using assms by (simp add: head_inv_def first_order_def runs_def unrun_def)

text \<open>
  C4. Take a flush that starts from a consistent queue (no duplicates, the presence map
  marks exactly the queued watchers) and callers' code that reaches the scheduler through
  \<^verbatim>\<open>queueWatcher\<close> alone. At the head of every turn of the loop the watchers not yet
  run, the one at the cursor first, are in strictly ascending order and are exactly the
  marked ones: the watcher that the turn runs is the smallest of all that are waiting at
  that moment, whenever they were enqueued. A turn whose run returns leaves the queue up
  to the cursor as it was, keeps every pending watcher pending, and leaves the pending
  watchers, with those enqueued during the turn, strictly ascending and marked; the next
  turn starts from that state with the cursor moved on. The watchers run by the flush are
  the watchers at the cursor of its turns, in this order (all but the last, if the last
  turn threw before its run). Whenever a watcher runs, every watcher that was in the queue
  when the flush started and has a smaller id has already run: of two watchers invalidated
  before the flush, the one created first runs first. When nothing is enqueued during the
  flush (\<open>A = {}\<close>), the runs are strictly ascending: they are a prefix of the sorted
  queue, the whole of it when the flush returns normally, and the flush returns within as
  many turns as the queue is long.
\<close>

theorem flush_runs_in_order:
  assumes "sched_safe A E" and "distinct (queue s)"
    and "\<forall>w. has s w = (w \<in> set (queue s))"
  shows
   "(let turns = flush_turns n E (s\<lparr>flushing := True, queue := sort (queue s), index := 0\<rparr>)
     in (\<forall>(t, r, t1) \<in> set turns.
           index t < length (queue t) \<and> sorted_wrt (<) (unrun t) \<and>
           (\<forall>w. has t w = (w \<in> set (unrun t))) \<and>
           (\<forall>st. r = Ok st \<longrightarrow>
              index t1 = index t \<and>
              take (Suc (index t)) (queue t1) = take (Suc (index t)) (queue t) \<and>
              set (pending t) \<subseteq> set (pending t1) \<and>
              sorted_wrt (<) (pending t1) \<and> (\<forall>w. has t1 w = (w \<in> set (pending t1))))) \<and>
        (\<forall>i. Suc i < length turns \<longrightarrow>
           fst (turns ! Suc i) =
             (snd (snd (turns ! i)))\<lparr>index := index (snd (snd (turns ! i))) + 1\<rparr>) \<and>
        (\<forall>r s'. flushSchedulerQueue n E s = Some (r, s') \<longrightarrow>
           (runs s' = runs s @ map (cursor \<circ> fst) turns \<or>
            (r \<noteq> Ok () \<and> runs s' = runs s @ map (cursor \<circ> fst) (butlast turns))) \<and>
           (let new = drop (length (runs s)) (runs s')
            in (\<forall>j < length new. \<forall>a \<in> set (queue s). a < new ! j \<longrightarrow> a \<in> set (take j new)) \<and>
               (A = {} \<longrightarrow> sorted_wrt (<) new \<and> (\<exists>m. new = take m (sort (queue s))) \<and>
                  (r = Ok () \<longrightarrow> new = sort (queue s)))))) \<and>
    (A = {} \<and> length (queue s) \<le> n \<longrightarrow> (\<exists>r s'. flushSchedulerQueue n E s = Some (r, s')))"
proof -
  let ?s0 = "s\<lparr>flushing := True, queue := sort (queue s), index := 0\<rparr>"
  let ?turns = "flush_turns n E ?s0"
  note h0 = head_inv_start [OF assms(2,3)]
  have part0: "\<forall>(t, r, t1) \<in> set ?turns.
           index t < length (queue t) \<and> sorted_wrt (<) (unrun t) \<and>
           (\<forall>w. has t w = (w \<in> set (unrun t))) \<and>
           (\<forall>st. r = Ok st \<longrightarrow>
              index t1 = index t \<and>
              take (Suc (index t)) (queue t1) = take (Suc (index t)) (queue t) \<and>
              set (pending t) \<subseteq> set (pending t1) \<and>
              sorted_wrt (<) (pending t1) \<and> (\<forall>w. has t1 w = (w \<in> set (pending t1))))"
    using turn_facts [OF assms(1) h0] by blast
  have chain: "\<forall>i. Suc i < length ?turns \<longrightarrow>
           fst (?turns ! Suc i) =
             (snd (snd (?turns ! i)))\<lparr>index := index (snd (snd (?turns ! i))) + 1\<rparr>"
    using flush_turns_chain by blast
  have part1: "(runs s' = runs s @ map (cursor \<circ> fst) ?turns \<or>
            (r \<noteq> Ok () \<and> runs s' = runs s @ map (cursor \<circ> fst) (butlast ?turns))) \<and>
           (let new = drop (length (runs s)) (runs s')
            in (\<forall>j < length new. \<forall>a \<in> set (queue s). a < new ! j \<longrightarrow> a \<in> set (take j new)) \<and>
               (A = {} \<longrightarrow> sorted_wrt (<) new \<and> (\<exists>m. new = take m (sort (queue s))) \<and>
                  (r = Ok () \<longrightarrow> new = sort (queue s))))"
    if res: "flushSchedulerQueue n E s = Some (r, s')" for r s'
  proof -
    from flushSchedulerQueue_runs [OF res] obtain r1 s1 where
      l: "flush_loop n E ?s0 = Some (r1, s1)" and rr: "runs s' = runs s1"
      and ok: "(r = Ok ()) = (r1 = Ok ())" by blast
    have r0: "runs ?s0 = runs s" by (simp add: runs_def)
    have a: "runs s' = runs s @ map (cursor \<circ> fst) ?turns \<or>
            (r \<noteq> Ok () \<and> runs s' = runs s @ map (cursor \<circ> fst) (butlast ?turns))"
      using flush_loop_runs [OF assms(1) h0 l] rr ok r0 by auto
    note o = flush_loop_order [OF assms(1) h0 l]
    from o obtain m where m: "runs s1 = runs s @ take m (queue s1)"
      and fo: "first_order (queue s) (take m (queue s1))" by blast
    have new: "drop (length (runs s)) (runs s') = take m (queue s1)"
      using m rr by simp
    have q: "sorted_wrt (<) (take m (queue s1)) \<and> (\<exists>k. take m (queue s1) = take k (sort (queue s))) \<and>
          (r = Ok () \<longrightarrow> take m (queue s1) = sort (queue s))" if "A = {}"
    proof -
      from o that have qs: "queue s1 = sort (queue s)"
        and r1: "r1 = Ok () \<longrightarrow> runs s1 = runs s @ sort (queue s)" by simp_all
      have "sorted_wrt (<) (sort (queue s))"
        using assms(2) by (simp add: strict_sorted_iff)
      then have "sorted_wrt (<) (take m (sort (queue s)))"
        by (rule sorted_wrt_take)
      with m qs r1 ok show ?thesis by auto
    qed
    from a fo q show ?thesis
      unfolding Let_def new by (simp add: first_order_def)
  qed
  have part2: "\<exists>r s'. flushSchedulerQueue n E s = Some (r, s')"
    if "A = {}" and "length (queue s) \<le> n"
  proof -
    have "sched_safe {} E" using assms(1) that(1) by simp
    from flush_loop_quiet_returns [OF this h0, of n] that(2)
    obtain r1 s1 where "flush_loop n E ?s0 = Some (r1, s1)" by auto
    then show ?thesis
      by (cases r1) (simp_all add: flushSchedulerQueue_def Let_def)
  qed
  show ?thesis
    unfolding Let_def using part0 chain part1 [unfolded Let_def] part2 by blast
qed


lemma sched_safe_requeue_env: "sched_safe UNIV (requeue_env v nxt pr)"
  by (simp add: sched_safe_def requeue_env_def enqueues_only_refl enqueues_only_queueWatcher)

lemma sched_safe_const_env: "sched_safe {} (const_env v)"
  by (simp add: sched_safe_def const_env_def enqueues_only_refl)

text \<open>
  Watchers whose getter returns an object, so that every run calls the callback; the
  callback of watcher \<open>a\<close> writes a property that watcher \<open>b\<close> depends on, the other
  callbacks do nothing.
\<close>

definition inject_env :: "wid \<Rightarrow> wid \<Rightarrow> env" where
  "inject_env a b =
     (const_env (Ref 0))\<lparr>cb := (\<lambda>w x old s. (Ok (), if w = a then queueWatcher b s else s))\<rparr>"

lemma sched_safe_inject_env: "sched_safe {b} (inject_env a b)"
  by (simp add: sched_safe_def inject_env_def const_env_def enqueues_only_refl
      enqueues_only_queueWatcher)

text \<open>The watchers 6 and 2 have been enqueued, in this order.\<close>

definition order_example :: world where
  "order_example = queueWatcher 2 (queueWatcher 6 world0)"

lemma order_example_simps:
  "queue order_example = [6, 2]" "distinct (queue order_example)"
  "\<forall>w. has order_example w = (w \<in> set (queue order_example))"
  by (auto simp: order_example_def queueWatcher_def world0_def Let_def emit_def)

text \<open>The state after a flush of these two in which watcher 2 invalidates watcher 4, with
  the watchers 6 and 2 enqueued again.\<close>

definition order_again :: world where
  "order_again =
     (case flushSchedulerQueue 3 (inject_env 2 4) order_example of
        Some (r, s) \<Rightarrow> queueWatcher 2 (queueWatcher 6 s)
      | None \<Rightarrow> world0)"

lemma order_example_quiet:
  "map_option (\<lambda>r. (fst r, runs (snd r)))
     (flushSchedulerQueue 2 (const_env (Num 5)) order_example) = Some (Ok (), [2, 6])"
  by (simp add: flushSchedulerQueue_def numeral_2_eq_2 flush_body_def run_def getAndInvoke_def
      get_def const_env_def order_example_def queueWatcher_def world0_def Let_def emit_def
      pushTarget_def popTarget_def cleanupDeps_def upd_watcher_def strict_eq_def isObject_def
      resetSchedulerState_def callActivatedHooks_def callUpdatedHooks_def runs_def)

lemma order_example_early:
  "map (\<lambda>(t, r, t1). (cursor t, unrun t, r, pending t1))
     (flush_turns 3 (inject_env 2 4)
        (order_example\<lparr>flushing := True, queue := sort (queue order_example), index := 0\<rparr>)) =
   [(2, [2, 6], Ok Continue, [4, 6]), (4, [4, 6], Ok Continue, [6]), (6, [6], Ok Continue, [])]"
  "map_option (\<lambda>r. (fst r, runs (snd r)))
     (flushSchedulerQueue 3 (inject_env 2 4) order_example) = Some (Ok (), [2, 4, 6])"
  by (simp_all add: flushSchedulerQueue_def eval_nat_numeral flush_body_def run_def
      getAndInvoke_def get_def const_env_def inject_env_def order_example_def queueWatcher_def
      world0_def Let_def emit_def pushTarget_def popTarget_def cleanupDeps_def upd_watcher_def
      strict_eq_def isObject_def resetSchedulerState_def callActivatedHooks_def
      callUpdatedHooks_def runs_def splice_in_def splice_scan.simps MAX_UPDATE_COUNT_def
      cursor_def unrun_def pending_def)

lemma order_example_late:
  "map (\<lambda>(t, r, t1). (cursor t, unrun t, r, pending t1))
     (flush_turns 3 (inject_env 6 4)
        (order_example\<lparr>flushing := True, queue := sort (queue order_example), index := 0\<rparr>)) =
   [(2, [2, 6], Ok Continue, [6]), (6, [6], Ok Continue, [4]), (4, [4], Ok Continue, [])]"
  "map_option (\<lambda>r. (fst r, runs (snd r)))
     (flushSchedulerQueue 3 (inject_env 6 4) order_example) = Some (Ok (), [2, 6, 4])"
  by (simp_all add: flushSchedulerQueue_def eval_nat_numeral flush_body_def run_def
      getAndInvoke_def get_def const_env_def inject_env_def order_example_def queueWatcher_def
      world0_def Let_def emit_def pushTarget_def popTarget_def cleanupDeps_def upd_watcher_def
      strict_eq_def isObject_def resetSchedulerState_def callActivatedHooks_def
      callUpdatedHooks_def runs_def splice_in_def splice_scan.simps MAX_UPDATE_COUNT_def
      cursor_def unrun_def pending_def)

lemma order_again_simps:
  "queue order_again = [6, 2]" "distinct (queue order_again)"
  "\<forall>w. has order_again w = (w \<in> set (queue order_again))"
  "runs order_again = [2, 4, 6]"
  "map_option (\<lambda>r. (fst r, runs (snd r)))
     (flushSchedulerQueue 3 (inject_env 2 4) order_again) = Some (Ok (), [2, 4, 6, 2, 4, 6])"
  by (simp_all add: order_again_def flushSchedulerQueue_def eval_nat_numeral flush_body_def
      run_def getAndInvoke_def get_def const_env_def inject_env_def order_example_def
      queueWatcher_def world0_def Let_def emit_def pushTarget_def popTarget_def cleanupDeps_def
      upd_watcher_def strict_eq_def isObject_def resetSchedulerState_def callActivatedHooks_def
      callUpdatedHooks_def runs_def splice_in_def splice_scan.simps MAX_UPDATE_COUNT_def)

theorem flush_runs_in_order_witness:
  "sched_safe {} (const_env (Num 5)) \<and> sched_safe {4} (inject_env 2 4) \<and>
   sched_safe {4} (inject_env 6 4) \<and>
   queue order_example = [6, 2] \<and> distinct (queue order_example) \<and>
   (\<forall>w. has order_example w = (w \<in> set (queue order_example))) \<and>
   map_option (\<lambda>r. (fst r, runs (snd r)))
     (flushSchedulerQueue 2 (const_env (Num 5)) order_example) = Some (Ok (), [2, 6]) \<and>
   sorted_wrt (<) [2, 6 :: nat] \<and>
   map (\<lambda>(t, r, t1). (cursor t, unrun t, r, pending t1))
     (flush_turns 3 (inject_env 2 4)
        (order_example\<lparr>flushing := True, queue := sort (queue order_example), index := 0\<rparr>)) =
   [(2, [2, 6], Ok Continue, [4, 6]), (4, [4, 6], Ok Continue, [6]), (6, [6], Ok Continue, [])] \<and>
   map_option (\<lambda>r. (fst r, runs (snd r)))
     (flushSchedulerQueue 3 (inject_env 2 4) order_example) = Some (Ok (), [2, 4, 6]) \<and>
   map (\<lambda>(t, r, t1). (cursor t, unrun t, r, pending t1))
     (flush_turns 3 (inject_env 6 4)
        (order_example\<lparr>flushing := True, queue := sort (queue order_example), index := 0\<rparr>)) =
   [(2, [2, 6], Ok Continue, [6]), (6, [6], Ok Continue, [4]), (4, [4], Ok Continue, [])] \<and>
   map_option (\<lambda>r. (fst r, runs (snd r)))
     (flushSchedulerQueue 3 (inject_env 6 4) order_example) = Some (Ok (), [2, 6, 4]) \<and>
   queue order_again = [6, 2] \<and> distinct (queue order_again) \<and>
   (\<forall>w. has order_again w = (w \<in> set (queue order_again))) \<and>
   runs order_again = [2, 4, 6] \<and>
   map_option (\<lambda>r. (fst r, runs (snd r)))
     (flushSchedulerQueue 3 (inject_env 2 4) order_again) = Some (Ok (), [2, 4, 6, 2, 4, 6])"
  using flush_runs_in_order [where n = 2 and A = "{}" and E = "const_env (Num 5)",
      OF sched_safe_const_env order_example_simps(2,3)]
    flush_runs_in_order [where n = 3 and A = "{4}" and E = "inject_env 2 4",
      OF sched_safe_inject_env order_example_simps(2,3)]
    flush_runs_in_order [where n = 3 and A = "{4}" and E = "inject_env 6 4",
      OF sched_safe_inject_env order_example_simps(2,3)]
    flush_runs_in_order [where n = 3 and A = "{4}" and E = "inject_env 2 4",
      OF sched_safe_inject_env order_again_simps(2,3)]
    sched_safe_const_env sched_safe_inject_env [of 4 2] sched_safe_inject_env [of 4 6]
    order_example_simps order_example_quiet order_example_early order_example_late
    order_again_simps
  by simp


end
